theory Spec2Isabelle
  imports Main "HOL-Library.Multiset"
begin

section \<open>The score-based router of pkg/balance/router/router\_score.go\<close>

subsection \<open>Data model\<close>

text \<open>
  Modelled from the spec: the type \<open>observer.BackendStatus\<close> is declared in another
  file; the spec gives \<open>Status \<in> {Healthy, CannotConnect, SchemaOutdated}\<close>, and
  router\_score.go names \<open>StatusCannotConnect\<close> and \<open>StatusSchemaOutdated\<close>.
\<close>

datatype BackendStatus = StatusHealthy | StatusCannotConnect | StatusSchemaOutdated

text \<open>
  Modelled from the spec: \<open>observer.BackendHealth\<close> has a status, a server version and an
  optional ping error; two healths are equal iff all three match, which is equality of
  the record. The error is kept as its message.
\<close>

record BackendHealth =
  Status :: BackendStatus
  ServerVersion :: string
  PingErr :: "string option"

text \<open>
  Modelled from the spec: \<open>observer.HealthResult\<close>, built in the tests by
  \<open>NewHealthResult(backends, err)\<close>: a map from address to health and an optional error.
  The map is kept as an association list with distinct keys.
\<close>

record HealthResult =
  Backends :: "(string \<times> BackendHealth) list"
  Error :: "string option"

text \<open>Modelled from the spec: the phases of a connection wrapper.\<close>

datatype connPhase = phaseNotRedirected | phaseRedirectNotify | phaseRedirectEnd | phaseRedirectFail

text \<open>
  Modelled from the spec: \<open>backendWrapper\<close> (declared in another file of the package) holds the
  address, the current health, \<open>connScore\<close> and the list of attached connections. Objects
  live in a heap indexed by natural numbers; \<open>connList\<close> holds the handles of the list
  elements (\<open>*glist.Element[*connWrapper]\<close>), front first.
\<close>

record backendWrapper =
  addr :: string
  health :: BackendHealth
  connScore :: int
  connList :: "nat list"

text \<open>
  Modelled from the spec: \<open>connWrapper\<close> embeds the redirectable connection (here its
  identity, a number) and holds the phase, the time of the last redirect and the pointer
  \<open>redirectingBackend\<close> (\<open>None\<close> is nil).
\<close>

record connWrapper =
  conn :: nat
  phase :: connPhase
  lastRedirect :: int
  redirectingBackend :: "nat option"

text \<open>
  The router. \<open>backends\<close> is the list \<open>*glist.List[*backendWrapper]\<close>, front first; an
  element of that list and the backend object it holds are created together and never
  separated, so both carry the same number. \<open>bheap\<close>, \<open>eheap\<close> and \<open>wheap\<close> are the
  stores of backend objects, connection-list elements (each holding a pointer to a
  wrapper) and connection wrappers; \<open>bnext\<close>, \<open>enext\<close> and \<open>wnext\<close> are the next free
  addresses. \<open>routerKey c\<close> is \<open>conn.Value(_routerKey)\<close> of connection \<open>c\<close>.
  \<open>scoreMethod\<close> is the method \<open>score()\<close> of \<open>backendWrapper\<close>, which is declared
  in another file of the package: the router carries it as a field, so that it can be any
  function of a backend object.
  \<open>hasObserver\<close> says that \<open>router.observer\<close> is not nil, \<open>refreshes\<close> counts the calls of
  \<open>observer.Refresh()\<close>, and \<open>redirected\<close> logs the calls \<open>conn.Redirect(target)\<close>, latest
  first. Logging and metrics are left out; Go's \<open>int\<close> is taken as unbounded.
\<close>

record ScoreBasedRouter =
  backends :: "nat list"
  bheap :: "nat \<Rightarrow> backendWrapper"
  bnext :: nat
  eheap :: "nat \<Rightarrow> nat"
  enext :: nat
  wheap :: "nat \<Rightarrow> connWrapper"
  wnext :: nat
  routerKey :: "nat \<Rightarrow> nat option"
  observeError :: "string option"
  hasObserver :: bool
  refreshes :: nat
  serverVersion :: string
  redirected :: "(nat \<times> nat) list"
  scoreMethod :: "backendWrapper \<Rightarrow> int"

datatype error = ErrNoBackend | ErrObserve string

definition emptyBackend :: backendWrapper where
  "emptyBackend = \<lparr>addr = [], health = \<lparr>Status = StatusHealthy, ServerVersion = [], PingErr = None\<rparr>,
     connScore = 0, connList = []\<rparr>"

definition emptyConn :: connWrapper where
  "emptyConn = \<lparr>conn = 0, phase = phaseNotRedirected, lastRedirect = 0, redirectingBackend = None\<rparr>"

text \<open>
  \<open>NewScoreBasedRouter\<close>: an empty list, no observer, no error. The argument is the
  method \<open>score()\<close> that the backends of this router have.
\<close>

definition NewScoreBasedRouter :: "(backendWrapper \<Rightarrow> int) \<Rightarrow> ScoreBasedRouter" where
  "NewScoreBasedRouter sf = \<lparr>backends = [], bheap = (\<lambda>_. emptyBackend), bnext = 0,
     eheap = (\<lambda>_. 0), enext = 0, wheap = (\<lambda>_. emptyConn), wnext = 0,
     routerKey = (\<lambda>_. None), observeError = None, hasObserver = False, refreshes = 0,
     serverVersion = [], redirected = [], scoreMethod = sf\<rparr>"

text \<open>\<open>Init\<close> stores the observer (the control loop it starts is not modelled).\<close>

definition Init :: "ScoreBasedRouter \<Rightarrow> ScoreBasedRouter" where
  "Init r = r\<lparr>hasObserver := True\<rparr>"

text \<open>
  Modelled from the spec: \<open>score(b) = len(b.connList) + b.connScore\<close>, the method
  \<open>score()\<close> as the spec gives it.
\<close>

definition specScore :: "backendWrapper \<Rightarrow> int" where
  "specScore b = int (length (connList b)) + connScore b"

text \<open>\<open>be.Value.score()\<close>, for an element \<open>be\<close> of the list.\<close>

definition score :: "ScoreBasedRouter \<Rightarrow> nat \<Rightarrow> int" where
  "score r be = scoreMethod r (bheap r be)"

text \<open>A write through a backend pointer, such as \<open>backend.connScore++\<close>.\<close>

definition updBackend :: "nat \<Rightarrow> (backendWrapper \<Rightarrow> backendWrapper) \<Rightarrow> ScoreBasedRouter \<Rightarrow> ScoreBasedRouter" where
  "updBackend be f r = r\<lparr>bheap := (bheap r)(be := f (bheap r be))\<rparr>"

text \<open>A write through a wrapper pointer, such as \<open>connWrapper.phase = phaseRedirectEnd\<close>.\<close>

definition updConn :: "nat \<Rightarrow> (connWrapper \<Rightarrow> connWrapper) \<Rightarrow> ScoreBasedRouter \<Rightarrow> ScoreBasedRouter" where
  "updConn w f r = r\<lparr>wheap := (wheap r)(w := f (wheap r w))\<rparr>"

subsection \<open>The linked list of the library generic-list-go\<close>

text \<open>
  \<open>be.Prev()\<close>, \<open>be.Prev().Prev()\<close>, ...: the elements before \<open>be\<close>, nearest first. An
  element that is no longer in the list has no neighbours.
\<close>

definition prevs :: "nat list \<Rightarrow> nat \<Rightarrow> nat list" where
  "prevs xs be = (if be \<in> set xs then rev (takeWhile (\<lambda>x. x \<noteq> be) xs) else [])"

text \<open>\<open>be.Next()\<close>, \<open>be.Next().Next()\<close>, ...: the elements after \<open>be\<close>, nearest first.\<close>

definition nexts :: "nat list \<Rightarrow> nat \<Rightarrow> nat list" where
  "nexts xs be = (if be \<in> set xs then tl (dropWhile (\<lambda>x. x \<noteq> be) xs) else [])"

fun insertBefore :: "nat \<Rightarrow> nat \<Rightarrow> nat list \<Rightarrow> nat list" where
  "insertBefore e mark [] = []"
| "insertBefore e mark (x # xs) = (if x = mark then e # x # xs else x # insertBefore e mark xs)"

fun insertAfter :: "nat \<Rightarrow> nat \<Rightarrow> nat list \<Rightarrow> nat list" where
  "insertAfter e mark [] = []"
| "insertAfter e mark (x # xs) = (if x = mark then x # e # xs else x # insertAfter e mark xs)"

text \<open>\<open>MoveBefore(e, mark)\<close> does nothing unless both are elements of the list and differ.\<close>

definition MoveBefore :: "nat \<Rightarrow> nat \<Rightarrow> nat list \<Rightarrow> nat list" where
  "MoveBefore e mark xs =
     (if e \<in> set xs \<and> mark \<in> set xs \<and> e \<noteq> mark then insertBefore e mark (remove1 e xs) else xs)"

definition MoveAfter :: "nat \<Rightarrow> nat \<Rightarrow> nat list \<Rightarrow> nat list" where
  "MoveAfter e mark xs =
     (if e \<in> set xs \<and> mark \<in> set xs \<and> e \<noteq> mark then insertAfter e mark (remove1 e xs) else xs)"

subsection \<open>removeBackendIfEmpty and adjustBackendList\<close>

text \<open>The test of \<open>removeBackendIfEmpty\<close>.\<close>

definition emptyUnhealthy :: "backendWrapper \<Rightarrow> bool" where
  "emptyUnhealthy backend \<longleftrightarrow>
     Status (health backend) = StatusCannotConnect \<and> length (connList backend) = 0 \<and> connScore backend \<le> 0"

text \<open>\<open>Remove\<close> of the library leaves the list alone when the element is not in it.\<close>

definition removeBackendIfEmpty :: "ScoreBasedRouter \<Rightarrow> nat \<Rightarrow> ScoreBasedRouter \<times> bool" where
  "removeBackendIfEmpty r be =
     (if emptyUnhealthy (bheap r be) then (r\<lparr>backends := remove1 be (backends r)\<rparr>, True)
      else (r, False))"

text \<open>The first loop of \<open>adjustBackendList\<close>, over the elements before \<open>be\<close>.\<close>

fun adjustPrevLoop :: "(nat \<Rightarrow> int) \<Rightarrow> int \<Rightarrow> nat list \<Rightarrow> nat option \<Rightarrow> nat option" where
  "adjustPrevLoop sc curScore [] mark = mark"
| "adjustPrevLoop sc curScore (ele # rest) mark =
     (if sc ele \<ge> curScore then mark else adjustPrevLoop sc curScore rest (Some ele))"

text \<open>The second loop, over the elements after \<open>be\<close>.\<close>

fun adjustNextLoop :: "(nat \<Rightarrow> int) \<Rightarrow> int \<Rightarrow> nat list \<Rightarrow> nat option \<Rightarrow> nat option" where
  "adjustNextLoop sc curScore [] mark = mark"
| "adjustNextLoop sc curScore (ele # rest) mark =
     (if sc ele \<le> curScore then mark else adjustNextLoop sc curScore rest (Some ele))"

text \<open>
  Both loops and the moves, on the list alone: \<open>sc\<close> gives the score of each element and
  \<open>sc be\<close> is \<open>curScore\<close>.
\<close>

definition adjustList :: "(nat \<Rightarrow> int) \<Rightarrow> nat \<Rightarrow> nat list \<Rightarrow> nat list" where
  "adjustList sc be xs =
     (case adjustPrevLoop sc (sc be) (prevs xs be) None of
        Some mark \<Rightarrow> MoveBefore be mark xs
      | None \<Rightarrow>
         (case adjustNextLoop sc (sc be) (nexts xs be) None of
            Some mark \<Rightarrow> MoveAfter be mark xs
          | None \<Rightarrow> xs))"

text \<open>The result of \<open>removeBackendIfEmpty\<close> is the router and the returned flag.\<close>

definition adjustBackendList :: "ScoreBasedRouter \<Rightarrow> nat \<Rightarrow> bool \<Rightarrow> ScoreBasedRouter" where
  "adjustBackendList r be removeEmpty =
     (if removeEmpty \<and> snd (removeBackendIfEmpty r be) then fst (removeBackendIfEmpty r be)
      else r\<lparr>backends := adjustList (score r) be (backends r)\<rparr>)"

subsection \<open>lookupBackend and ensureBackend\<close>

fun lookupLoop :: "(nat \<Rightarrow> backendWrapper) \<Rightarrow> string \<Rightarrow> nat list \<Rightarrow> nat option" where
  "lookupLoop h a [] = None"
| "lookupLoop h a (be # rest) = (if addr (h be) = a then Some be else lookupLoop h a rest)"

definition lookupBackend :: "ScoreBasedRouter \<Rightarrow> string \<Rightarrow> bool \<Rightarrow> nat option" where
  "lookupBackend r a forward =
     (if forward then lookupLoop (bheap r) a (backends r)
      else lookupLoop (bheap r) a (rev (backends r)))"

text \<open>\<open>observer.BackendHealth{Status: observer.StatusCannotConnect}\<close>.\<close>

definition cannotConnect :: BackendHealth where
  "cannotConnect = \<lparr>Status = StatusCannotConnect, ServerVersion = [], PingErr = None\<rparr>"

text \<open>The result is the router and the element; a new element goes to the front first.\<close>

definition ensureBackend :: "ScoreBasedRouter \<Rightarrow> string \<Rightarrow> bool \<Rightarrow> ScoreBasedRouter \<times> nat" where
  "ensureBackend r a forward =
     (case lookupBackend r a forward of
        Some be \<Rightarrow> (r, be)
      | None \<Rightarrow>
          (let be = bnext r;
               backend = \<lparr>addr = a, health = cannotConnect, connScore = 0, connList = []\<rparr>;
               r1 = r\<lparr>bheap := (bheap r)(be := backend), bnext := Suc be,
                      backends := be # backends r\<rparr>
           in (adjustBackendList r1 be False, be)))"

subsection \<open>Connections\<close>

text \<open>
  \<open>getConnWrapper\<close> asserts that the value stored in the connection is a list element:
  \<open>conn.Value(_routerKey).(*glist.Element[*connWrapper])\<close>. When nothing was stored the
  assertion panics, which is \<open>None\<close> here.
\<close>

definition getConnWrapper :: "ScoreBasedRouter \<Rightarrow> nat \<Rightarrow> nat option" where
  "getConnWrapper r c = routerKey r c"

definition setConnWrapper :: "ScoreBasedRouter \<Rightarrow> nat \<Rightarrow> nat \<Rightarrow> ScoreBasedRouter" where
  "setConnWrapper r c ce = r\<lparr>routerKey := (routerKey r)(c \<mapsto> ce)\<rparr>"

text \<open>\<open>connList.Remove(ce)\<close> removes the element only from the list that holds it.\<close>

definition removeConn :: "ScoreBasedRouter \<Rightarrow> nat \<Rightarrow> nat \<Rightarrow> ScoreBasedRouter" where
  "removeConn r be ce =
     adjustBackendList (updBackend be (\<lambda>b. b\<lparr>connList := remove1 ce (connList b)\<rparr>) r) be True"

text \<open>\<open>connList.PushBack(conn)\<close> makes a new element \<open>ce\<close> that points to wrapper \<open>w\<close>.\<close>

definition addConn :: "ScoreBasedRouter \<Rightarrow> nat \<Rightarrow> nat \<Rightarrow> ScoreBasedRouter" where
  "addConn r be w =
     (let ce = enext r;
          r1 = (updBackend be (\<lambda>b. b\<lparr>connList := connList b @ [ce]\<rparr>) r)
                 \<lparr>eheap := (eheap r)(ce := w), enext := Suc ce\<rparr>;
          r2 = setConnWrapper r1 (conn (wheap r1 w)) ce
      in adjustBackendList r2 be False)"

subsection \<open>routeOnce and onCreateConn\<close>

text \<open>The inner loop of \<open>routeOnce\<close> over the excluded instances, given by their \<open>Addr()\<close>.\<close>

fun isExcluded :: "string list \<Rightarrow> string \<Rightarrow> bool" where
  "isExcluded [] a = False"
| "isExcluded (ex # rest) a = (if ex = a then True else isExcluded rest a)"

text \<open>The outer loop, from \<open>Back()\<close> along \<open>Prev()\<close>: it is run on the reversed list.\<close>

fun routeLoop :: "(nat \<Rightarrow> backendWrapper) \<Rightarrow> string list \<Rightarrow> nat list \<Rightarrow> nat option" where
  "routeLoop h excluded [] = None"
| "routeLoop h excluded (be # rest) =
     (case Status (health (h be)) of
        StatusCannotConnect \<Rightarrow> routeLoop h excluded rest
      | StatusSchemaOutdated \<Rightarrow> routeLoop h excluded rest
      | StatusHealthy \<Rightarrow>
          (if \<not> isExcluded excluded (addr (h be)) then Some be else routeLoop h excluded rest))"

definition Refresh :: "ScoreBasedRouter \<Rightarrow> ScoreBasedRouter" where
  "Refresh r = r\<lparr>refreshes := Suc (refreshes r)\<rparr>"

text \<open>The result is the new router and either an error or the chosen backend.\<close>

definition routeOnce :: "ScoreBasedRouter \<Rightarrow> string list \<Rightarrow> ScoreBasedRouter \<times> (error + nat)" where
  "routeOnce r excluded =
     (case observeError r of
        Some e \<Rightarrow> (r, Inl (ErrObserve e))
      | None \<Rightarrow>
         (case routeLoop (bheap r) excluded (rev (backends r)) of
            Some be \<Rightarrow>
              (adjustBackendList (updBackend be (\<lambda>b. b\<lparr>connScore := connScore b + 1\<rparr>) r) be False,
               Inr be)
          | None \<Rightarrow> ((if hasObserver r then Refresh r else r), Inl ErrNoBackend)))"

text \<open>
  \<open>onCreateConn\<close> reads only \<open>backendInst.Addr()\<close>, the argument \<open>a\<close>. The registration of
  the router as the connection's event receiver is not part of the router's state.
\<close>

definition onCreateConn :: "ScoreBasedRouter \<Rightarrow> string \<Rightarrow> nat \<Rightarrow> bool \<Rightarrow> ScoreBasedRouter" where
  "onCreateConn r a c succeed =
     (let (r1, be) = ensureBackend r a True in
      if succeed then
        (let w = wnext r1;
             r2 = r1\<lparr>wheap := (wheap r1)(w := \<lparr>conn = c, phase = phaseNotRedirected,
                       lastRedirect = 0, redirectingBackend = None\<rparr>), wnext := Suc w\<rparr>
         in addConn r2 be w)
      else adjustBackendList (updBackend be (\<lambda>b. b\<lparr>connScore := connScore b - 1\<rparr>) r1) be True)"

subsection \<open>The event receiver\<close>

text \<open>\<open>None\<close> is a panic; \<open>Some r\<close> is the router after the callback has returned.\<close>

definition onRedirectFinished ::
  "ScoreBasedRouter \<Rightarrow> string \<Rightarrow> string \<Rightarrow> nat \<Rightarrow> bool \<Rightarrow> ScoreBasedRouter option" where
  "onRedirectFinished r fromAddr toAddr c succeed =
     (let (r1, fromBe) = ensureBackend r fromAddr True;
          (r2, toBe) = ensureBackend r1 toAddr False
      in case getConnWrapper r2 c of
           None \<Rightarrow> None
         | Some ce \<Rightarrow>
            (let w = eheap r2 ce;
                 r3 = (if succeed then
                         updConn w (\<lambda>x. x\<lparr>phase := phaseRedirectEnd\<rparr>)
                           (addConn (removeConn r2 fromBe ce) toBe w)
                       else
                         (let r' = adjustBackendList
                                     (updBackend fromBe (\<lambda>b. b\<lparr>connScore := connScore b + 1\<rparr>) r2)
                                     fromBe False;
                              r'' = adjustBackendList
                                      (updBackend toBe (\<lambda>b. b\<lparr>connScore := connScore b - 1\<rparr>) r')
                                      toBe True
                          in updConn w (\<lambda>x. x\<lparr>phase := phaseRedirectFail\<rparr>) r''))
             in Some (updConn w (\<lambda>x. x\<lparr>redirectingBackend := None\<rparr>) r3)))"

text \<open>Both callbacks return a nil error whenever they return.\<close>

definition OnRedirectSucceed :: "ScoreBasedRouter \<Rightarrow> string \<Rightarrow> string \<Rightarrow> nat \<Rightarrow> ScoreBasedRouter option" where
  "OnRedirectSucceed r fromAddr toAddr c = onRedirectFinished r fromAddr toAddr c True"

definition OnRedirectFail :: "ScoreBasedRouter \<Rightarrow> string \<Rightarrow> string \<Rightarrow> nat \<Rightarrow> ScoreBasedRouter option" where
  "OnRedirectFail r fromAddr toAddr c = onRedirectFinished r fromAddr toAddr c False"

text \<open>\<open>OnConnClosed\<close> has one return statement, \<open>return nil\<close>: \<open>Some r\<close> is that return.\<close>

definition OnConnClosed :: "ScoreBasedRouter \<Rightarrow> string \<Rightarrow> nat \<Rightarrow> ScoreBasedRouter option" where
  "OnConnClosed r a c =
     (let (r1, be) = ensureBackend r a True in
      case getConnWrapper r1 c of
        None \<Rightarrow> None
      | Some ce \<Rightarrow>
         (let w = eheap r1 ce;
              r2 = (case redirectingBackend (wheap r1 w) of
                      Some rb \<Rightarrow>
                        (let r' = updConn w (\<lambda>x. x\<lparr>redirectingBackend := None\<rparr>)
                                    (updBackend rb (\<lambda>b. b\<lparr>connScore := connScore b - 1\<rparr>) r1)
                         in case lookupBackend r' (addr (bheap r' rb)) True of
                              Some redirectingBe \<Rightarrow> adjustBackendList r' redirectingBe True
                            | None \<Rightarrow> r')
                    | None \<Rightarrow> updBackend be (\<lambda>b. b\<lparr>connScore := connScore b - 1\<rparr>) r1)
          in Some (removeConn r2 be ce)))"

subsection \<open>updateBackendHealth\<close>

definition removedHealth :: BackendHealth where
  "removedHealth = \<lparr>Status = StatusCannotConnect, ServerVersion = [],
     PingErr = Some ''removed from backend list''\<rparr>"

text \<open>
  The first loop: every registered backend whose address is missing from the map gets an
  entry there.
\<close>

fun addRemoved ::
  "(nat \<Rightarrow> backendWrapper) \<Rightarrow> nat list \<Rightarrow> (string \<times> BackendHealth) list \<Rightarrow> (string \<times> BackendHealth) list" where
  "addRemoved h [] m = m"
| "addRemoved h (be # rest) m =
     (case map_of m (addr (h be)) of
        Some v \<Rightarrow> addRemoved h rest m
      | None \<Rightarrow> addRemoved h rest (m @ [(addr (h be), removedHealth)]))"

text \<open>
  The body of the second loop for one entry of the map. The pair carries the router and
  the local variable \<open>serverVersion\<close>. \<open>backend.Equals\<close> is equality of healths.
\<close>

definition healthStep ::
  "string \<Rightarrow> BackendHealth \<Rightarrow> ScoreBasedRouter \<times> string \<Rightarrow> ScoreBasedRouter \<times> string" where
  "healthStep a h rs =
     (let r = fst rs; sv = snd rs in
      case lookupBackend r a True of
        None \<Rightarrow>
          (if Status h \<noteq> StatusCannotConnect then
             (let be = bnext r;
                  backend = \<lparr>addr = a, health = h, connScore = 0, connList = []\<rparr>;
                  r1 = r\<lparr>bheap := (bheap r)(be := backend), bnext := Suc be,
                         backends := backends r @ [be]\<rparr>
              in (adjustBackendList r1 be False, ServerVersion h))
           else (r, sv))
      | Some be \<Rightarrow>
          (if health (bheap r be) \<noteq> h then
             (adjustBackendList (updBackend be (\<lambda>b. b\<lparr>health := h\<rparr>) r) be True,
              if Status h \<noteq> StatusCannotConnect then ServerVersion h else sv)
           else (r, sv)))"

text \<open>
  The second loop ranges over a Go map, in an order the runtime chooses: \<open>order\<close> lists
  the keys in the order of the visit.
\<close>

fun healthLoop ::
  "(string \<times> BackendHealth) list \<Rightarrow> string list \<Rightarrow> ScoreBasedRouter \<times> string \<Rightarrow> ScoreBasedRouter \<times> string" where
  "healthLoop m [] rs = rs"
| "healthLoop m (a # rest) rs =
     (case map_of m a of
        None \<Rightarrow> healthLoop m rest rs
      | Some h \<Rightarrow> healthLoop m rest (healthStep a h rs))"

definition updateBackendHealth :: "ScoreBasedRouter \<Rightarrow> HealthResult \<Rightarrow> string list \<Rightarrow> ScoreBasedRouter" where
  "updateBackendHealth r healthResults order =
     (let r0 = r\<lparr>observeError := Error healthResults\<rparr> in
      if observeError r0 \<noteq> None then r0
      else
        (let m = addRemoved (bheap r0) (backends r0) (Backends healthResults);
             rs = healthLoop m order (r0, [])
         in if length (snd rs) > 0 then (fst rs)\<lparr>serverVersion := snd rs\<rparr> else fst rs))"

text \<open>An order of visit is right for a map when it lists each key once.\<close>

definition visits :: "string list \<Rightarrow> (string \<times> BackendHealth) list \<Rightarrow> bool" where
  "visits order m \<longleftrightarrow> distinct order \<and> set order = fst ` set m"

subsection \<open>rebalance\<close>

fun findBusiest :: "(nat \<Rightarrow> backendWrapper) \<Rightarrow> nat list \<Rightarrow> nat option" where
  "findBusiest h [] = None"
| "findBusiest h (be # rest) =
     (if length (connList (h be)) > 0 then Some be else findBusiest h rest)"

text \<open>
  The loop that picks the connection to redirect. \<open>minInterval\<close> is the constant
  \<open>redirectFailMinInterval\<close>, declared in another file of the package, and \<open>curTime\<close> is
  \<open>monotime.Now()\<close>.
\<close>

fun pickConn :: "ScoreBasedRouter \<Rightarrow> int \<Rightarrow> int \<Rightarrow> nat list \<Rightarrow> nat option" where
  "pickConn r minInterval curTime [] = None"
| "pickConn r minInterval curTime (ele # rest) =
     (case phase (wheap r (eheap r ele)) of
        phaseRedirectNotify \<Rightarrow> pickConn r minInterval curTime rest
      | phaseRedirectFail \<Rightarrow>
          (if lastRedirect (wheap r (eheap r ele)) + minInterval > curTime
           then pickConn r minInterval curTime rest else Some ele)
      | phaseNotRedirected \<Rightarrow> Some ele
      | phaseRedirectEnd \<Rightarrow> Some ele)"

text \<open>
  The end of a round of \<open>rebalance\<close>, once the connection element \<open>ce\<close> of the busiest
  backend was picked: the scores move, and the connection is told to redirect.
\<close>

definition redirectTo :: "ScoreBasedRouter \<Rightarrow> nat \<Rightarrow> nat \<Rightarrow> nat \<Rightarrow> int \<Rightarrow> ScoreBasedRouter" where
  "redirectTo r busiestEle idlestEle ce curTime =
     (let w = eheap r ce;
          r1 = adjustBackendList
                 (updBackend busiestEle (\<lambda>b. b\<lparr>connScore := connScore b - 1\<rparr>) r)
                 busiestEle True;
          r2 = adjustBackendList
                 (updBackend idlestEle (\<lambda>b. b\<lparr>connScore := connScore b + 1\<rparr>) r1)
                 idlestEle False;
          r3 = updConn w (\<lambda>x. x\<lparr>phase := phaseRedirectNotify, lastRedirect := curTime\<rparr>) r2;
          r4 = r3\<lparr>redirected := (conn (wheap r3 w), idlestEle) # redirected r3\<rparr>
      in updConn w (\<lambda>x. x\<lparr>redirectingBackend := Some idlestEle\<rparr>) r4)"

text \<open>
  One round of the loop of \<open>rebalance\<close>; \<open>None\<close> is \<open>break\<close>. \<open>lowRatio x y\<close> stands for
  the test \<open>float64(x)/float64(y+1) < rebalanceMaxScoreRatio\<close>, whose constant is declared
  in another file of the package. \<open>Back()\<close> is read only after a backend was found, so the
  list is not empty there.
\<close>

definition rebalanceStep ::
  "(int \<Rightarrow> int \<Rightarrow> bool) \<Rightarrow> int \<Rightarrow> int \<Rightarrow> ScoreBasedRouter \<Rightarrow> ScoreBasedRouter option" where
  "rebalanceStep lowRatio minInterval curTime r =
     (case findBusiest (bheap r) (backends r) of
        None \<Rightarrow> None
      | Some busiestEle \<Rightarrow>
         (let idlestEle = last (backends r) in
          if lowRatio (score r busiestEle) (score r idlestEle) then None
          else
            (case pickConn r minInterval curTime (connList (bheap r busiestEle)) of
               None \<Rightarrow> None
             | Some ce \<Rightarrow> Some (redirectTo r busiestEle idlestEle ce curTime))))"

fun rebalance ::
  "(int \<Rightarrow> int \<Rightarrow> bool) \<Rightarrow> int \<Rightarrow> int \<Rightarrow> nat \<Rightarrow> ScoreBasedRouter \<Rightarrow> ScoreBasedRouter" where
  "rebalance lowRatio minInterval curTime 0 r = r"
| "rebalance lowRatio minInterval curTime (Suc n) r =
     (case rebalanceStep lowRatio minInterval curTime r of
        None \<Rightarrow> r
      | Some r' \<Rightarrow> rebalance lowRatio minInterval curTime n r')"

text \<open>
  Modelled from the spec: \<open>RebalanceMaxScoreRatio\<close> is 1.2. The quotient is taken exactly;
  a zero divisor gives plus or minus infinity, or not-a-number for 0/0, as in Go.
\<close>

definition belowMaxScoreRatio :: "int \<Rightarrow> int \<Rightarrow> bool" where
  "belowMaxScoreRatio x y =
     (if y + 1 = 0 then x < 0
      else if 0 < y + 1 then 5 * x < 6 * (y + 1)
      else 6 * (y + 1) < 5 * x)"

subsection \<open>ConnCount\<close>

fun ConnCountLoop :: "(nat \<Rightarrow> backendWrapper) \<Rightarrow> nat list \<Rightarrow> int \<Rightarrow> int" where
  "ConnCountLoop h [] j = j"
| "ConnCountLoop h (be # rest) j = ConnCountLoop h rest (j + int (length (connList (h be))))"

text \<open>The router after the call, and the count.\<close>

definition ConnCount :: "ScoreBasedRouter \<Rightarrow> ScoreBasedRouter \<times> int" where
  "ConnCount r = (r, ConnCountLoop (bheap r) (backends r) 0)"

subsection \<open>RefreshBackend and RedirectConnections\<close>

text \<open>\<open>RefreshBackend\<close> calls the observer; without observer it panics (\<open>None\<close>).\<close>

definition RefreshBackend :: "ScoreBasedRouter \<Rightarrow> ScoreBasedRouter option" where
  "RefreshBackend r = (if hasObserver r then Some (Refresh r) else None)"

text \<open>
  The inner loop of \<open>RedirectConnections\<close>, over the connections of \<open>backend\<close>: every
  connection that is not being redirected is told to redirect to the backend it is on.
\<close>

fun redirectConns :: "nat \<Rightarrow> nat list \<Rightarrow> ScoreBasedRouter \<Rightarrow> ScoreBasedRouter" where
  "redirectConns backend [] r = r"
| "redirectConns backend (ce # rest) r =
     (if phase (wheap r (eheap r ce)) \<noteq> phaseRedirectNotify then
        redirectConns backend rest
          (updConn (eheap r ce) (\<lambda>x. x\<lparr>redirectingBackend := Some backend\<rparr>)
             ((updConn (eheap r ce) (\<lambda>x. x\<lparr>phase := phaseRedirectNotify\<rparr>) r)
                \<lparr>redirected := (conn (wheap r (eheap r ce)), backend) # redirected r\<rparr>))
      else redirectConns backend rest r)"

text \<open>The outer loop, over the backends; the loops leave both lists as they are.\<close>

fun redirectBackends :: "nat list \<Rightarrow> ScoreBasedRouter \<Rightarrow> ScoreBasedRouter" where
  "redirectBackends [] r = r"
| "redirectBackends (be # rest) r =
     redirectBackends rest (redirectConns be (connList (bheap r be)) r)"

text \<open>\<open>RedirectConnections\<close> always returns nil.\<close>

definition RedirectConnections :: "ScoreBasedRouter \<Rightarrow> ScoreBasedRouter" where
  "RedirectConnections r = redirectBackends (backends r) r"

subsection \<open>Sequences of public operations\<close>

text \<open>
  The routers that a sequence of public operations produces from a new router, each
  operation with any arguments, whatever the method \<open>score()\<close> is. An operation that panics produces no router.
\<close>

inductive reachable :: "ScoreBasedRouter \<Rightarrow> bool" where
  reach_new: "reachable (NewScoreBasedRouter sf)"
| reach_Init: "reachable r \<Longrightarrow> reachable (Init r)"
| reach_routeOnce: "reachable r \<Longrightarrow> reachable (fst (routeOnce r excluded))"
| reach_onCreateConn: "reachable r \<Longrightarrow> reachable (onCreateConn r a c succeed)"
| reach_OnRedirectSucceed:
    "reachable r \<Longrightarrow> OnRedirectSucceed r fromAddr toAddr c = Some r' \<Longrightarrow> reachable r'"
| reach_OnRedirectFail:
    "reachable r \<Longrightarrow> OnRedirectFail r fromAddr toAddr c = Some r' \<Longrightarrow> reachable r'"
| reach_OnConnClosed: "reachable r \<Longrightarrow> OnConnClosed r a c = Some r' \<Longrightarrow> reachable r'"
| reach_updateBackendHealth:
    "reachable r \<Longrightarrow> reachable (updateBackendHealth r healthResults order)"
| reach_rebalance: "reachable r \<Longrightarrow> reachable (rebalance lowRatio minInterval curTime maxNum r)"
| reach_RefreshBackend: "reachable r \<Longrightarrow> RefreshBackend r = Some r' \<Longrightarrow> reachable r'"
| reach_RedirectConnections: "reachable r \<Longrightarrow> reachable (RedirectConnections r)"

text \<open>The list is in descending order of scores.\<close>

definition descending :: "(nat \<Rightarrow> int) \<Rightarrow> nat list \<Rightarrow> bool" where
  "descending sc xs = sorted_wrt (\<lambda>x y. sc y \<le> sc x) xs"

text \<open>\<open>x\<close> stands before \<open>y\<close> in the list.\<close>

definition before :: "nat list \<Rightarrow> nat \<Rightarrow> nat \<Rightarrow> bool" where
  "before xs x y \<longleftrightarrow> x \<in> set (takeWhile (\<lambda>z. z \<noteq> y) xs)"

subsection \<open>Invariants\<close>

text \<open>
  The list holds each element once, no two backends of the list have the same address,
  and every element of the list has been allocated.
\<close>

definition base :: "ScoreBasedRouter \<Rightarrow> bool" where
  "base r \<longleftrightarrow> distinct (backends r) \<and> distinct (map (\<lambda>b. addr (bheap r b)) (backends r))
     \<and> (\<forall>b\<in>set (backends r). b < bnext r)"

text \<open>
  The invariant, with a set \<open>Y\<close> of backends that may be empty and unhealthy for the
  time being, with a \<open>connScore\<close> of zero (a backend that \<open>ensureBackend\<close> has just made).
\<close>

definition invX :: "nat set \<Rightarrow> ScoreBasedRouter \<Rightarrow> bool" where
  "invX Y r \<longleftrightarrow> base r \<and> descending (score r) (backends r)
     \<and> (\<forall>x\<in>set (backends r). emptyUnhealthy (bheap r x) \<longrightarrow> x \<in> Y \<and> connScore (bheap r x) = 0)"

text \<open>
  The state before \<open>adjustBackendList\<close> is called for \<open>b\<close>: the list is in order once
  \<open>b\<close> is left out.
\<close>

definition ready :: "nat \<Rightarrow> nat set \<Rightarrow> ScoreBasedRouter \<Rightarrow> bool" where
  "ready b Y r \<longleftrightarrow> base r \<and> descending (score r) (remove1 b (backends r))
     \<and> (\<forall>x\<in>set (backends r). x \<noteq> b \<longrightarrow> emptyUnhealthy (bheap r x) \<longrightarrow> x \<in> Y \<and> connScore (bheap r x) = 0)"

definition routerInv :: "ScoreBasedRouter \<Rightarrow> bool" where
  "routerInv r \<longleftrightarrow> invX {} r"

text \<open>
  What the spec says of \<open>Next\<close>, to compare \<open>routeOnce\<close> with: the first backend,
  scanning from the tail to the head, whose status is Healthy and whose address is not in
  \<open>excluded\<close>.
\<close>

definition qualifies :: "ScoreBasedRouter \<Rightarrow> string list \<Rightarrow> nat \<Rightarrow> bool" where
  "qualifies r excluded be \<longleftrightarrow>
     Status (health (bheap r be)) = StatusHealthy \<and> addr (bheap r be) \<notin> set excluded"

definition spec_firstQualifying :: "ScoreBasedRouter \<Rightarrow> string list \<Rightarrow> nat option" where
  "spec_firstQualifying r excluded = find (qualifies r excluded) (rev (backends r))"

text \<open>
  The part of \<open>OnConnClosed\<close> between \<open>getConnWrapper\<close> and \<open>removeConn\<close>, for the
  backend \<open>be\<close> and the wrapper \<open>w\<close> of the connection: the score that the connection
  holds is given back.
\<close>

definition releaseScore :: "ScoreBasedRouter \<Rightarrow> nat \<Rightarrow> nat \<Rightarrow> ScoreBasedRouter" where
  "releaseScore r1 be w =
     (case redirectingBackend (wheap r1 w) of
        Some rb \<Rightarrow>
          (let r' = updConn w (\<lambda>x. x\<lparr>redirectingBackend := None\<rparr>)
                      (updBackend rb (\<lambda>b. b\<lparr>connScore := connScore b - 1\<rparr>) r1)
           in case lookupBackend r' (addr (bheap r' rb)) True of
                Some redirectingBe \<Rightarrow> adjustBackendList r' redirectingBe True
              | None \<Rightarrow> r')
      | None \<Rightarrow> updBackend be (\<lambda>b. b\<lparr>connScore := connScore b - 1\<rparr>) r1)"

text \<open>The backends of the list that carry the address \<open>a\<close>.\<close>

definition registered :: "ScoreBasedRouter \<Rightarrow> string \<Rightarrow> nat set" where
  "registered r a = {be \<in> set (backends r). addr (bheap r be) = a}"

subsection \<open>Example routers\<close>

definition healthy :: BackendHealth where
  "healthy = \<lparr>Status = StatusHealthy, ServerVersion = ''1.0'', PingErr = None\<rparr>"

definition unreachable :: BackendHealth where
  "unreachable = \<lparr>Status = StatusCannotConnect, ServerVersion = [], PingErr = Some ''dial''\<rparr>"

text \<open>Two healthy backends, \<open>a\<close> (object 0) and \<open>b\<close> (object 1), and no connection.\<close>

definition twoBackends :: ScoreBasedRouter where
  "twoBackends = updateBackendHealth (NewScoreBasedRouter specScore)
     \<lparr>Backends = [(''a'', healthy), (''b'', healthy)], Error = None\<rparr> [''a'', ''b'']"

text \<open>After \<open>Next\<close>, which chooses \<open>b\<close>, and \<open>Finish(conn, true)\<close> for connection 7.\<close>

definition oneConn :: ScoreBasedRouter where
  "oneConn = onCreateConn (fst (routeOnce twoBackends [])) ''b'' 7 True"

text \<open>After both backends were then reported as not reachable: \<open>a\<close> is dropped.\<close>

definition scaleIn :: ScoreBasedRouter where
  "scaleIn = updateBackendHealth oneConn
     \<lparr>Backends = [(''a'', unreachable), (''b'', unreachable)], Error = None\<rparr> [''b'', ''a'']"

text \<open>A new router with an observer, and the two backends with an observer.\<close>

definition observed :: ScoreBasedRouter where
  "observed = Init (NewScoreBasedRouter specScore)"

definition observedTwo :: ScoreBasedRouter where
  "observedTwo = Init twoBackends"

text \<open>
  After \<open>a\<close> was reported as not reachable, a third backend \<open>c\<close> (object 2) came up and
  one round of \<open>rebalance\<close> told connection 7 to move from \<open>b\<close> to \<open>c\<close>.
\<close>

definition threeBackends :: ScoreBasedRouter where
  "threeBackends = updateBackendHealth oneConn
     \<lparr>Backends = [(''a'', unreachable), (''b'', healthy), (''c'', healthy)], Error = None\<rparr>
     [''a'', ''b'', ''c'']"

definition redirecting :: ScoreBasedRouter where
  "redirecting = rebalance belowMaxScoreRatio 3 10 1 threeBackends"

definition outdated :: BackendHealth where
  "outdated = \<lparr>Status = StatusSchemaOutdated, ServerVersion = ''1.0'', PingErr = None\<rparr>"

section \<open>Properties\<close>

subsection \<open>adjustBackendList on lists\<close>

lemma prevs_split: "be \<notin> set pre \<Longrightarrow> prevs (pre @ be # post) be = rev pre"
  by (induction pre) (auto simp: prevs_def)

lemma nexts_split: "be \<notin> set pre \<Longrightarrow> nexts (pre @ be # post) be = post"
  by (induction pre) (auto simp: nexts_def)

lemma insertBefore_split: "m \<notin> set pre \<Longrightarrow> insertBefore e m (pre @ m # post) = pre @ e # m # post"
  by (induction pre) auto

lemma insertAfter_split: "m \<notin> set pre \<Longrightarrow> insertAfter e m (pre @ m # post) = pre @ m # e # post"
  by (induction pre) auto

lemma remove1_split: "be \<notin> set pre \<Longrightarrow> remove1 be (pre @ be # post) = pre @ post"
  by (induction pre) auto

lemma prevLoop_run:
  assumes "\<forall>x\<in>set p2. sc x < cur" "rest = [] \<or> cur \<le> sc (hd rest)"
  shows "adjustPrevLoop sc cur (rev p2 @ rest) mark = (if p2 = [] then mark else Some (hd p2))"
  using assms
proof (induction p2 arbitrary: mark rule: rev_induct)
  case Nil
  then show ?case by (cases rest) auto
next
  case (snoc x xs)
  then show ?case by (cases xs) auto
qed

lemma nextLoop_run:
  assumes "\<forall>x\<in>set q1. cur < sc x" "rest = [] \<or> sc (hd rest) \<le> cur"
  shows "adjustNextLoop sc cur (q1 @ rest) mark = (if q1 = [] then mark else Some (last q1))"
  using assms
proof (induction q1 arbitrary: mark)
  case Nil
  then show ?case by (cases rest) auto
next
  case (Cons x xs)
  then show ?case by (cases xs) auto
qed

lemma adjustList_up:
  assumes d: "distinct (p1 @ p2 @ be # post)" and ne: "p2 \<noteq> []"
    and lt: "\<forall>x\<in>set p2. sc x < sc be" and stop: "p1 = [] \<or> sc be \<le> sc (last p1)"
  shows "adjustList sc be (p1 @ p2 @ be # post) = p1 @ be # p2 @ post"
proof -
  have nin: "be \<notin> set (p1 @ p2)" using d by auto
  have pv: "prevs (p1 @ p2 @ be # post) be = rev p2 @ rev p1"
    using prevs_split[OF nin, of post] by simp
  have stop': "rev p1 = [] \<or> sc be \<le> sc (hd (rev p1))"
    using stop by (auto simp: hd_rev)
  have mk: "adjustPrevLoop sc (sc be) (rev p2 @ rev p1) None = Some (hd p2)"
    using prevLoop_run[OF lt stop', of None] ne by simp
  obtain m p2' where p2: "p2 = m # p2'" using ne by (cases p2) auto
  have mv: "MoveBefore be m (p1 @ p2 @ be # post) = p1 @ be # m # p2' @ post"
  proof -
    have "remove1 be (p1 @ p2 @ be # post) = p1 @ p2 @ post"
      using remove1_split[OF nin, of post] by simp
    moreover have "m \<notin> set p1" using d p2 by auto
    ultimately show ?thesis
      using d p2 by (auto simp: MoveBefore_def insertBefore_split)
  qed
  show ?thesis
    unfolding adjustList_def pv mk using mv p2 by simp
qed

lemma adjustList_down:
  assumes d: "distinct (pre @ be # q1 @ q2)"
    and stop1: "pre = [] \<or> sc be \<le> sc (last pre)"
    and gt: "\<forall>x\<in>set q1. sc be < sc x" and stop2: "q2 = [] \<or> sc (hd q2) \<le> sc be"
  shows "adjustList sc be (pre @ be # q1 @ q2) = pre @ q1 @ be # q2"
proof -
  have nin: "be \<notin> set pre" using d by auto
  have pv: "prevs (pre @ be # q1 @ q2) be = rev [] @ rev pre"
    using prevs_split[OF nin] by simp
  have stop': "rev pre = [] \<or> sc be \<le> sc (hd (rev pre))"
    using stop1 by (auto simp: hd_rev)
  have mk: "adjustPrevLoop sc (sc be) (rev [] @ rev pre) None = None"
    using prevLoop_run[of "[]" sc "sc be" "rev pre" None] stop' by simp
  have nx: "nexts (pre @ be # q1 @ q2) be = q1 @ q2"
    using nexts_split[OF nin] by simp
  have mk2: "adjustNextLoop sc (sc be) (q1 @ q2) None = (if q1 = [] then None else Some (last q1))"
    using nextLoop_run[OF gt stop2] by simp
  show ?thesis
  proof (cases "q1 = []")
    case True
    then show ?thesis unfolding adjustList_def pv mk nx mk2 by simp
  next
    case False
    then obtain q1' m where q1: "q1 = q1' @ [m]" by (cases q1 rule: rev_cases) auto
    have "remove1 be (pre @ be # q1 @ q2) = pre @ q1 @ q2"
      using remove1_split[OF nin] by simp
    moreover have "m \<notin> set (pre @ q1')" using d q1 by auto
    ultimately have "MoveAfter be m (pre @ be # q1 @ q2) = pre @ q1' @ m # be # q2"
      using d q1 insertAfter_split[of m "pre @ q1'" be q2] by (auto simp: MoveAfter_def)
    then show ?thesis unfolding adjustList_def pv mk nx mk2 using q1 by simp
  qed
qed

lemma adjustList_absent: "be \<notin> set xs \<Longrightarrow> adjustList sc be xs = xs"
  by (simp add: adjustList_def prevs_def nexts_def)


lemma adjustList_cases:
  assumes d: "distinct xs" and m: "be \<in> set xs"
  obtains (up) p1 p2 post where "xs = p1 @ p2 @ be # post" "p2 \<noteq> []"
      "\<forall>x\<in>set p2. sc x < sc be" "p1 = [] \<or> sc be \<le> sc (last p1)"
      "adjustList sc be xs = p1 @ be # p2 @ post"
  | (down) pre q1 q2 where "xs = pre @ be # q1 @ q2" "pre = [] \<or> sc be \<le> sc (last pre)"
      "\<forall>x\<in>set q1. sc be < sc x" "q2 = [] \<or> sc (hd q2) \<le> sc be"
      "adjustList sc be xs = pre @ q1 @ be # q2"
proof -
  obtain pre post where xs: "xs = pre @ be # post" using m by (auto simp: in_set_conv_decomp)
  define p2 where "p2 = rev (takeWhile (\<lambda>x. sc x < sc be) (rev pre))"
  define p1 where "p1 = rev (dropWhile (\<lambda>x. sc x < sc be) (rev pre))"
  have pre: "pre = p1 @ p2"
    unfolding p1_def p2_def by (metis rev_append rev_rev_ident takeWhile_dropWhile_id)
  have lt: "\<forall>x\<in>set p2. sc x < sc be"
    unfolding p2_def by (auto dest: set_takeWhileD)
  have stop: "p1 = [] \<or> sc be \<le> sc (last p1)"
  proof (cases "dropWhile (\<lambda>x. sc x < sc be) (rev pre)")
    case Nil
    then show ?thesis by (simp add: p1_def)
  next
    case (Cons y ys)
    then have "\<not> sc y < sc be" by (metis hd_dropWhile list.sel(1) list.distinct(1))
    moreover have "last p1 = y" unfolding p1_def Cons by simp
    ultimately show ?thesis by simp
  qed
  show ?thesis
  proof (cases "p2 = []")
    case False
    have "adjustList sc be (p1 @ p2 @ be # post) = p1 @ be # p2 @ post"
      using adjustList_up[of p1 p2 be post sc] d xs pre False lt stop by simp
    then show ?thesis using up[of p1 p2 post] xs pre False lt stop by simp
  next
    case True
    define q1 where "q1 = takeWhile (\<lambda>x. sc be < sc x) post"
    define q2 where "q2 = dropWhile (\<lambda>x. sc be < sc x) post"
    have post: "post = q1 @ q2" by (simp add: q1_def q2_def)
    have gt: "\<forall>x\<in>set q1. sc be < sc x" unfolding q1_def by (auto dest: set_takeWhileD)
    have stop2: "q2 = [] \<or> sc (hd q2) \<le> sc be"
    proof (cases q2)
      case Nil
      then show ?thesis by simp
    next
      case (Cons y ys)
      then have "\<not> sc be < sc y" unfolding q2_def by (metis hd_dropWhile list.sel(1) list.distinct(1))
      then show ?thesis using Cons by simp
    qed
    have stop1: "pre = [] \<or> sc be \<le> sc (last pre)" using stop pre True by simp
    have "adjustList sc be (pre @ be # q1 @ q2) = pre @ q1 @ be # q2"
      using adjustList_down[of pre be q1 q2 sc] d xs post stop1 gt stop2 by simp
    then show ?thesis using down[of pre q1 q2] xs post stop1 gt stop2 by simp
  qed
qed

lemma descending_append:
  "descending sc (xs @ ys) \<longleftrightarrow> descending sc xs \<and> descending sc ys \<and> (\<forall>x\<in>set xs. \<forall>y\<in>set ys. sc y \<le> sc x)"
  by (simp add: descending_def sorted_wrt_append)

lemma descending_Cons:
  "descending sc (x # xs) \<longleftrightarrow> (\<forall>y\<in>set xs. sc y \<le> sc x) \<and> descending sc xs"
  by (simp add: descending_def)

lemma descending_last: "descending sc xs \<Longrightarrow> xs \<noteq> [] \<Longrightarrow> x \<in> set xs \<Longrightarrow> sc (last xs) \<le> sc x"
  by (induction xs) (auto simp: descending_Cons)

lemma descending_hd: "descending sc xs \<Longrightarrow> xs \<noteq> [] \<Longrightarrow> x \<in> set xs \<Longrightarrow> sc x \<le> sc (hd xs)"
  by (cases xs) (auto simp: descending_Cons)

lemma adjustList_descending:
  assumes d: "distinct xs" and s: "descending sc (remove1 be xs)"
  shows "descending sc (adjustList sc be xs)"
proof (cases "be \<in> set xs")
  case False
  then show ?thesis using s by (simp add: adjustList_absent remove1_idem)
next
  case True
  from d True show ?thesis
  proof (cases rule: adjustList_cases[where sc = sc])
    case (up p1 p2 post)
    have nin: "be \<notin> set (p1 @ p2)" using d up(1) by auto
    have rest: "descending sc (p1 @ p2 @ post)"
      using s up(1) remove1_split[OF nin, of post] by simp
    have a: "\<forall>x\<in>set p1. sc be \<le> sc x"
    proof
      fix x assume x: "x \<in> set p1"
      then have "p1 \<noteq> []" by auto
      moreover have "descending sc p1" using rest by (simp add: descending_append)
      ultimately have "sc (last p1) \<le> sc x" using x descending_last by blast
      then show "sc be \<le> sc x" using up(4) \<open>p1 \<noteq> []\<close> by auto
    qed
    obtain y where y: "y \<in> set p2" using up(2) by (cases p2) auto
    have b: "\<forall>x\<in>set post. sc x \<le> sc be"
    proof
      fix x assume "x \<in> set post"
      then have "sc x \<le> sc y" using rest y by (auto simp: descending_append)
      then show "sc x \<le> sc be" using up(3) y by force
    qed
    have c: "\<forall>x\<in>set p2. sc x \<le> sc be" using up(3) by force
    show ?thesis unfolding up(5) using rest a b c
      by (auto simp: descending_append descending_Cons)
  next
    case (down pre q1 q2)
    have nin: "be \<notin> set pre" using d down(1) by auto
    have rest: "descending sc (pre @ q1 @ q2)"
      using s down(1) remove1_split[OF nin, of "q1 @ q2"] by simp
    have a: "\<forall>x\<in>set pre. sc be \<le> sc x"
    proof
      fix x assume x: "x \<in> set pre"
      then have "pre \<noteq> []" by auto
      moreover have "descending sc pre" using rest by (simp add: descending_append)
      ultimately have "sc (last pre) \<le> sc x" using x descending_last by blast
      then show "sc be \<le> sc x" using down(2) \<open>pre \<noteq> []\<close> by auto
    qed
    have b: "\<forall>x\<in>set q2. sc x \<le> sc be"
    proof
      fix x assume x: "x \<in> set q2"
      then have "q2 \<noteq> []" by auto
      moreover have "descending sc q2" using rest by (simp add: descending_append)
      ultimately have "sc x \<le> sc (hd q2)" using x descending_hd by blast
      then show "sc x \<le> sc be" using down(4) \<open>q2 \<noteq> []\<close> by auto
    qed
    have c: "\<forall>x\<in>set q1. sc be \<le> sc x" using down(3) by force
    show ?thesis unfolding down(5) using rest a b c
      by (auto simp: descending_append descending_Cons)
  qed
qed


lemma mset_insertBefore: "m \<in> set ys \<Longrightarrow> mset (insertBefore e m ys) = add_mset e (mset ys)"
  by (induction ys) auto

lemma mset_insertAfter: "m \<in> set ys \<Longrightarrow> mset (insertAfter e m ys) = add_mset e (mset ys)"
  by (induction ys) auto

lemma mset_MoveBefore: "mset (MoveBefore e m xs) = mset xs"
  by (auto simp: MoveBefore_def mset_insertBefore)

lemma mset_MoveAfter: "mset (MoveAfter e m xs) = mset xs"
  by (auto simp: MoveAfter_def mset_insertAfter)

lemma mset_adjustList: "mset (adjustList sc be xs) = mset xs"
  by (auto simp: adjustList_def mset_MoveBefore mset_MoveAfter split: option.splits)

lemma set_adjustList: "set (adjustList sc be xs) = set xs"
  using mset_adjustList by (metis set_mset_mset)

lemma distinct_adjustList: "distinct (adjustList sc be xs) = distinct xs"
  using mset_adjustList by (metis mset_eq_imp_distinct_iff)

lemma remove1_adjustList:
  assumes "distinct xs"
  shows "remove1 be (adjustList sc be xs) = remove1 be xs"
proof (cases "be \<in> set xs")
  case False
  then show ?thesis by (simp add: adjustList_absent)
next
  case True
  from assms True show ?thesis
  proof (cases rule: adjustList_cases[where sc = sc])
    case (up p1 p2 post)
    have "be \<notin> set (p1 @ p2)" "be \<notin> set p1" using assms up(1) by auto
    then show ?thesis
      unfolding up(5) using up(1) remove1_split[of be "p1 @ p2" post] remove1_split[of be p1 "p2 @ post"]
      by simp
  next
    case (down pre q1 q2)
    have "be \<notin> set pre" "be \<notin> set (pre @ q1)" using assms down(1) by auto
    then show ?thesis
      unfolding down(5) using down(1) remove1_split[of be pre "q1 @ q2"] remove1_split[of be "pre @ q1" q2]
      by simp
  qed
qed

lemma before_split: "be \<notin> set pre \<Longrightarrow> before (pre @ be # post) x be \<longleftrightarrow> x \<in> set pre"
  by (induction pre) (auto simp: before_def)

lemma adjustList_stable:
  assumes d: "distinct xs" and x: "x \<noteq> be" "sc x = sc be"
  shows "before (adjustList sc be xs) x be \<longleftrightarrow> before xs x be"
proof (cases "be \<in> set xs")
  case False
  then show ?thesis by (simp add: adjustList_absent)
next
  case True
  from d True show ?thesis
  proof (cases rule: adjustList_cases[where sc = sc])
    case (up p1 p2 post)
    have n: "be \<notin> set (p1 @ p2)" "be \<notin> set p1" using d up(1) by auto
    have "x \<notin> set p2" using up(3) x by auto
    then show ?thesis
      unfolding up(5) using up(1) before_split[OF n(1), of post x] before_split[OF n(2), of "p2 @ post" x]
      by simp
  next
    case (down pre q1 q2)
    have n: "be \<notin> set pre" "be \<notin> set (pre @ q1)" using d down(1) by auto
    have "x \<notin> set q1" using down(3) x by auto
    then show ?thesis
      unfolding down(5) using down(1) before_split[OF n(1), of "q1 @ q2" x] before_split[OF n(2), of q2 x]
      by simp
  qed
qed

subsection \<open>Steps that keep the invariant\<close>

lemma descending_remove1: "descending sc xs \<Longrightarrow> descending sc (remove1 b xs)"
  unfolding descending_def
  by (induction xs) (auto dest: notin_set_remove1)

lemma descending_cong: "(\<And>x. x \<in> set xs \<Longrightarrow> sc x = sc' x) \<Longrightarrow> descending sc xs = descending sc' xs"
  unfolding descending_def by (induction xs) auto

lemma distinct_map_remove1: "distinct (map f xs) \<Longrightarrow> distinct (map f (remove1 b xs))"
  by (induction xs) (auto dest: set_remove1_subset[THEN subsetD])

lemma invX_ready: "invX Y r \<Longrightarrow> ready b Y r"
  by (auto simp: invX_def ready_def descending_remove1)

lemma invX_mono: "invX Y r \<Longrightarrow> Y \<subseteq> Z \<Longrightarrow> invX Z r"
  by (auto simp: invX_def)

lemma backends_adjust:
  "backends (adjustBackendList r b fl) =
     (if fl \<and> emptyUnhealthy (bheap r b) then remove1 b (backends r)
      else adjustList (score r) b (backends r))"
  by (auto simp: adjustBackendList_def removeBackendIfEmpty_def)

lemma adjust_other [simp]:
  "bheap (adjustBackendList r b fl) = bheap r"
  "bnext (adjustBackendList r b fl) = bnext r"
  "eheap (adjustBackendList r b fl) = eheap r"
  "enext (adjustBackendList r b fl) = enext r"
  "wheap (adjustBackendList r b fl) = wheap r"
  "wnext (adjustBackendList r b fl) = wnext r"
  "routerKey (adjustBackendList r b fl) = routerKey r"
  "observeError (adjustBackendList r b fl) = observeError r"
  "hasObserver (adjustBackendList r b fl) = hasObserver r"
  "refreshes (adjustBackendList r b fl) = refreshes r"
  "serverVersion (adjustBackendList r b fl) = serverVersion r"
  "redirected (adjustBackendList r b fl) = redirected r"
  "scoreMethod (adjustBackendList r b fl) = scoreMethod r"
  by (simp_all add: adjustBackendList_def removeBackendIfEmpty_def)

lemma score_adjust [simp]: "score (adjustBackendList r b fl) = score r"
  by (rule ext) (simp add: score_def)

lemma set_backends_adjust: "set (backends (adjustBackendList r b fl)) \<subseteq> set (backends r)"
  by (auto simp: backends_adjust set_adjustList dest: set_remove1_subset[THEN subsetD])

lemma set_backends_adjust_False [simp]: "set (backends (adjustBackendList r b False)) = set (backends r)"
  by (simp add: backends_adjust set_adjustList)

lemma base_mset:
  assumes "base r" "mset (backends r') = mset (backends r)" "bheap r' = bheap r" "bnext r' = bnext r"
  shows "base r'"
proof -
  have s: "set (backends r') = set (backends r)" using assms(2) by (metis set_mset_mset)
  have d: "distinct (backends r')" using assms(1,2) by (metis base_def mset_eq_imp_distinct_iff)
  have "mset (map (\<lambda>b. addr (bheap r b)) (backends r')) = mset (map (\<lambda>b. addr (bheap r b)) (backends r))"
    using assms(2) by (metis mset_map)
  then have "distinct (map (\<lambda>b. addr (bheap r b)) (backends r'))"
    using assms(1) by (metis base_def mset_eq_imp_distinct_iff)
  then show ?thesis using assms s d by (simp add: base_def)
qed

lemma base_remove1:
  assumes "base r" "backends r' = remove1 b (backends r)" "bheap r' = bheap r" "bnext r' = bnext r"
  shows "base r'"
  using assms by (auto simp: base_def distinct_map_remove1 dest: notin_set_remove1)

lemma adjust_ready:
  assumes rd: "ready b Y r"
    and ok: "fl \<or> b \<notin> set (backends r) \<or> (emptyUnhealthy (bheap r b) \<longrightarrow> b \<in> Y \<and> connScore (bheap r b) = 0)"
  shows "invX Y (adjustBackendList r b fl)"
proof (cases "fl \<and> emptyUnhealthy (bheap r b)")
  case True
  let ?r' = "adjustBackendList r b fl"
  have bk: "backends ?r' = remove1 b (backends r)" using True by (simp add: backends_adjust)
  have "base ?r'" using rd bk by (auto simp: ready_def intro: base_remove1)
  moreover have "descending (score ?r') (backends ?r')" using rd bk by (simp add: ready_def)
  moreover have "b \<notin> set (backends ?r')" using rd bk by (simp add: ready_def base_def)
  ultimately show ?thesis using rd bk
    by (auto simp: invX_def ready_def dest: notin_set_remove1)
next
  case False
  let ?r' = "adjustBackendList r b fl"
  have bk: "backends ?r' = adjustList (score r) b (backends r)" using False by (auto simp: backends_adjust)
  have "base ?r'" using rd bk by (auto simp: ready_def mset_adjustList intro: base_mset)
  moreover have "descending (score ?r') (backends ?r')"
    using rd bk by (simp add: ready_def base_def adjustList_descending)
  ultimately show ?thesis using rd bk False ok
    by (auto simp: invX_def ready_def set_adjustList)
qed

lemma updBackend_simps [simp]:
  "backends (updBackend b f r) = backends r"
  "bheap (updBackend b f r) = (bheap r)(b := f (bheap r b))"
  "bnext (updBackend b f r) = bnext r"
  "eheap (updBackend b f r) = eheap r"
  "enext (updBackend b f r) = enext r"
  "wheap (updBackend b f r) = wheap r"
  "wnext (updBackend b f r) = wnext r"
  "routerKey (updBackend b f r) = routerKey r"
  "observeError (updBackend b f r) = observeError r"
  "hasObserver (updBackend b f r) = hasObserver r"
  "refreshes (updBackend b f r) = refreshes r"
  "serverVersion (updBackend b f r) = serverVersion r"
  "redirected (updBackend b f r) = redirected r"
  "scoreMethod (updBackend b f r) = scoreMethod r"
  by (simp_all add: updBackend_def)

lemma updConn_simps [simp]:
  "backends (updConn w f r) = backends r"
  "bheap (updConn w f r) = bheap r"
  "bnext (updConn w f r) = bnext r"
  "eheap (updConn w f r) = eheap r"
  "enext (updConn w f r) = enext r"
  "wheap (updConn w f r) = (wheap r)(w := f (wheap r w))"
  "wnext (updConn w f r) = wnext r"
  "routerKey (updConn w f r) = routerKey r"
  "observeError (updConn w f r) = observeError r"
  "hasObserver (updConn w f r) = hasObserver r"
  "refreshes (updConn w f r) = refreshes r"
  "serverVersion (updConn w f r) = serverVersion r"
  "redirected (updConn w f r) = redirected r"
  "scoreMethod (updConn w f r) = scoreMethod r"
  by (simp_all add: updConn_def)

lemma score_updConn [simp]: "score (updConn w f r) = score r"
  by (rule ext) (simp add: score_def)

lemma score_updBackend:
  "score (updBackend b f r) x = (if x = b then scoreMethod r (f (bheap r b)) else score r x)"
  by (simp add: score_def)

lemma same_lists:
  assumes "backends r' = backends r" "bheap r' = bheap r" "bnext r' = bnext r"
    "scoreMethod r' = scoreMethod r"
  shows "base r' = base r" "invX Y r' = invX Y r" "ready b Y r' = ready b Y r"
proof -
  have "score r' = score r" using assms by (auto simp: score_def)
  then show "base r' = base r" "invX Y r' = invX Y r" "ready b Y r' = ready b Y r"
    using assms by (simp_all add: base_def invX_def ready_def)
qed

lemma upd_ready:
  assumes rd: "ready b Y r" and a: "addr (f (bheap r b)) = addr (bheap r b)"
  shows "ready b Y (updBackend b f r)"
proof -
  let ?r' = "updBackend b f r"
  have m: "map (\<lambda>x. addr (bheap ?r' x)) (backends ?r') = map (\<lambda>x. addr (bheap r x)) (backends r)"
    using a by auto
  have "base ?r'" unfolding base_def m using rd by (simp add: ready_def base_def)
  moreover have "descending (score ?r') (remove1 b (backends r)) = descending (score r) (remove1 b (backends r))"
    using rd by (intro descending_cong) (auto simp: score_updBackend ready_def base_def)
  ultimately show ?thesis using rd by (auto simp: ready_def)
qed

lemma upd_absent:
  assumes "b \<notin> set (backends r)"
  shows "invX Y (updBackend b f r) = invX Y r"
proof -
  let ?r' = "updBackend b f r"
  have m: "map (\<lambda>x. addr (bheap ?r' x)) (backends ?r') = map (\<lambda>x. addr (bheap r x)) (backends r)"
    using assms by auto
  have "descending (score ?r') (backends r) = descending (score r) (backends r)"
    using assms by (intro descending_cong) (auto simp: score_updBackend)
  moreover have "base ?r' = base r" unfolding base_def m by simp
  ultimately show ?thesis using assms by (auto simp: invX_def)
qed

lemma ready_drop: "ready b Y r \<Longrightarrow> ready b (Y - {b}) r"
  by (auto simp: ready_def)

lemma lookupLoop_Some: "lookupLoop h a xs = Some b \<Longrightarrow> b \<in> set xs \<and> addr (h b) = a"
  by (induction xs) (auto split: if_splits)

lemma lookupLoop_None: "lookupLoop h a xs = None \<longleftrightarrow> a \<notin> (\<lambda>b. addr (h b)) ` set xs"
  by (induction xs) auto

lemma lookupLoop_distinct:
  "distinct (map (\<lambda>b. addr (h b)) xs) \<Longrightarrow> b \<in> set xs \<Longrightarrow> lookupLoop h (addr (h b)) xs = Some b"
  by (induction xs) auto

lemma lookupBackend_Some:
  "lookupBackend r a fw = Some b \<Longrightarrow> b \<in> set (backends r) \<and> addr (bheap r b) = a"
  using lookupLoop_Some[of "bheap r" a "backends r" b] lookupLoop_Some[of "bheap r" a "rev (backends r)" b]
  by (auto simp: lookupBackend_def split: if_splits)

lemma lookupBackend_None:
  "lookupBackend r a fw = None \<longleftrightarrow> a \<notin> (\<lambda>b. addr (bheap r b)) ` set (backends r)"
  by (simp add: lookupBackend_def lookupLoop_None)

lemma lookupBackend_distinct:
  assumes "base r" "b \<in> set (backends r)"
  shows "lookupBackend r (addr (bheap r b)) fw = Some b"
proof -
  have "distinct (map (\<lambda>b. addr (bheap r b)) (rev (backends r)))"
    using assms(1) by (simp add: base_def rev_map[symmetric] del: rev_map)
  then show ?thesis
    using assms lookupLoop_distinct[of "bheap r" "backends r" b]
      lookupLoop_distinct[of "bheap r" "rev (backends r)" b]
    by (simp add: lookupBackend_def base_def)
qed

lemma alloc_ready:
  assumes i: "invX Y r" and a: "a \<notin> (\<lambda>x. addr (bheap r x)) ` set (backends r)"
    and nb: "addr nb = a"
    and h: "bheap r1 = (bheap r)(bnext r := nb)" and n: "bnext r1 = Suc (bnext r)"
    and sm: "scoreMethod r1 = scoreMethod r"
    and l: "backends r1 = bnext r # backends r \<or> backends r1 = backends r @ [bnext r]"
  shows "ready (bnext r) Y r1"
proof -
  let ?b = "bnext r"
  have fresh: "?b \<notin> set (backends r)" using i by (auto simp: invX_def base_def)
  have rm: "remove1 ?b (backends r1) = backends r"
    using l fresh by (auto simp: remove1_append)
  have same: "\<And>x. x \<in> set (backends r) \<Longrightarrow> bheap r1 x = bheap r x"
    using fresh h by auto
  have m: "map (\<lambda>x. addr (bheap r1 x)) (backends r) = map (\<lambda>x. addr (bheap r x)) (backends r)"
    using same by auto
  have d1: "distinct (map (\<lambda>x. addr (bheap r1 x)) (backends r))"
    unfolding m using i by (simp add: invX_def base_def)
  have "addr (bheap r1 ?b) = a" using h nb by simp
  then have n1: "addr (bheap r1 ?b) \<notin> set (map (\<lambda>x. addr (bheap r1 x)) (backends r))"
    unfolding m using a by simp
  have "distinct (map (\<lambda>x. addr (bheap r1 x)) (backends r1))"
    using l d1 n1 by auto
  moreover have "distinct (backends r1)" using l fresh i by (auto simp: invX_def base_def)
  moreover have "\<forall>x\<in>set (backends r1). x < bnext r1"
    using l i n by (auto simp: invX_def base_def less_Suc_eq)
  ultimately have b: "base r1" by (simp add: base_def)
  have "descending (score r1) (backends r) = descending (score r) (backends r)"
    using same sm by (intro descending_cong) (simp add: score_def)
  then have d: "descending (score r1) (remove1 ?b (backends r1))" using rm i by (simp add: invX_def)
  have "\<forall>x\<in>set (backends r1). x \<noteq> ?b \<longrightarrow> emptyUnhealthy (bheap r1 x) \<longrightarrow> x \<in> Y \<and> connScore (bheap r1 x) = 0"
    using l i same by (auto simp: invX_def)
  then show ?thesis using b d by (simp add: ready_def)
qed

lemma ensureBackend_found:
  "lookupBackend r a fw = Some be \<Longrightarrow> ensureBackend r a fw = (r, be)"
  by (simp add: ensureBackend_def)

lemma ensureBackend_other:
  assumes "ensureBackend r a fw = (r', be)"
  shows "eheap r' = eheap r" "enext r' = enext r" "wheap r' = wheap r" "wnext r' = wnext r"
    "routerKey r' = routerKey r" "observeError r' = observeError r" "hasObserver r' = hasObserver r"
    "refreshes r' = refreshes r" "serverVersion r' = serverVersion r" "redirected r' = redirected r"
    "scoreMethod r' = scoreMethod r"
  using assms by (auto simp: ensureBackend_def Let_def split: option.splits)

lemma ensureBackend_inv:
  assumes i: "invX Y r" and e: "ensureBackend r a fw = (r', be)"
  shows "invX (insert be Y) r'" "be \<in> set (backends r')" "addr (bheap r' be) = a"
proof -
  have "invX (insert be Y) r' \<and> be \<in> set (backends r') \<and> addr (bheap r' be) = a"
  proof (cases "lookupBackend r a fw")
    case (Some b)
    then have "r' = r" "be = b" using e by (simp_all add: ensureBackend_def)
    then show ?thesis using i Some lookupBackend_Some[of r a fw b] by (auto intro: invX_mono)
  next
    case None
    define nb where "nb = \<lparr>addr = a, health = cannotConnect, connScore = 0, connList = []\<rparr>"
    define r1 where "r1 = r\<lparr>bheap := (bheap r)(bnext r := nb), bnext := Suc (bnext r),
                      backends := bnext r # backends r\<rparr>"
    have r': "r' = adjustBackendList r1 (bnext r) False" and be: "be = bnext r"
      using e None by (auto simp: ensureBackend_def Let_def r1_def nb_def)
    have "ready (bnext r) Y r1"
      using i None by (intro alloc_ready[where a = a and nb = nb]) (auto simp: lookupBackend_None r1_def nb_def)
    then have rd: "ready be (insert be Y) r1" using be by (auto simp: ready_def)
    have "connScore (bheap r1 be) = 0" by (simp add: r1_def nb_def be)
    then have "invX (insert be Y) (adjustBackendList r1 be False)"
      using rd by (intro adjust_ready) auto
    moreover have "be \<in> set (backends r')" using r' be by (simp add: r1_def)
    moreover have "addr (bheap r' be) = a" using r' be by (simp add: r1_def nb_def)
    ultimately show ?thesis using r' be by simp
  qed
  then show "invX (insert be Y) r'" "be \<in> set (backends r')" "addr (bheap r' be) = a" by auto
qed

lemma emptyUnhealthy_incr:
  "emptyUnhealthy (b\<lparr>connScore := connScore b + 1\<rparr>) \<Longrightarrow> emptyUnhealthy b \<and> connScore b \<noteq> 0"
  by (auto simp: emptyUnhealthy_def)

lemma upd_ready_inv:
  assumes "invX Y r" "addr (f (bheap r b)) = addr (bheap r b)"
  shows "ready b (Y - {b}) (updBackend b f r)"
proof -
  have "ready b (Y - {b}) r" using assms(1) invX_ready ready_drop by blast
  then show ?thesis using assms(2) upd_ready[of b "Y - {b}" r f] by blast
qed

lemma incr_inv:
  assumes "invX Y r"
  shows "invX (Y - {b}) (adjustBackendList (updBackend b (\<lambda>x. x\<lparr>connScore := connScore x + 1\<rparr>) r) b False)"
proof (rule adjust_ready)
  show "ready b (Y - {b}) (updBackend b (\<lambda>x. x\<lparr>connScore := connScore x + 1\<rparr>) r)"
    using assms upd_ready_inv[of Y r "\<lambda>x. x\<lparr>connScore := connScore x + 1\<rparr>" b] by simp
  have "b \<in> set (backends r) \<Longrightarrow> \<not> emptyUnhealthy ((bheap r b)\<lparr>connScore := connScore (bheap r b) + 1\<rparr>)"
    using assms emptyUnhealthy_incr[of "bheap r b"] by (auto simp: invX_def)
  then show "False \<or> b \<notin> set (backends (updBackend b (\<lambda>x. x\<lparr>connScore := connScore x + 1\<rparr>) r)) \<or>
    (emptyUnhealthy (bheap (updBackend b (\<lambda>x. x\<lparr>connScore := connScore x + 1\<rparr>) r) b) \<longrightarrow>
     b \<in> Y - {b} \<and> connScore (bheap (updBackend b (\<lambda>x. x\<lparr>connScore := connScore x + 1\<rparr>) r) b) = 0)"
    by auto
qed

lemma upd_True_inv:
  assumes "invX Y r" "addr (f (bheap r b)) = addr (bheap r b)"
  shows "invX (Y - {b}) (adjustBackendList (updBackend b f r) b True)"
proof -
  have "ready b (Y - {b}) (updBackend b f r)" using assms upd_ready_inv[of Y r f b] by blast
  then show ?thesis by (rule adjust_ready) simp
qed

lemma removeConn_inv: "invX Y r \<Longrightarrow> invX (Y - {be}) (removeConn r be ce)"
  unfolding removeConn_def
  using upd_True_inv[of Y r "\<lambda>b. b\<lparr>connList := remove1 ce (connList b)\<rparr>" be] by simp

lemma addConn_alt:
  "addConn r be w = adjustBackendList (setConnWrapper
      ((updBackend be (\<lambda>b. b\<lparr>connList := connList b @ [enext r]\<rparr>) r)
         \<lparr>eheap := (eheap r)(enext r := w), enext := Suc (enext r)\<rparr>)
      (conn (wheap r w)) (enext r)) be False"
  by (simp add: addConn_def Let_def)

lemma addConn_inv:
  assumes "invX Y r"
  shows "invX (Y - {be}) (addConn r be w)"
proof -
  let ?r0 = "updBackend be (\<lambda>b. b\<lparr>connList := connList b @ [enext r]\<rparr>) r"
  let ?r2 = "setConnWrapper (?r0\<lparr>eheap := (eheap r)(enext r := w), enext := Suc (enext r)\<rparr>)
      (conn (wheap r w)) (enext r)"
  have "ready be (Y - {be}) ?r0"
    using assms upd_ready_inv[of Y r "\<lambda>b. b\<lparr>connList := connList b @ [enext r]\<rparr>" be] by simp
  moreover have "backends ?r2 = backends ?r0" "bheap ?r2 = bheap ?r0" "bnext ?r2 = bnext ?r0"
    "scoreMethod ?r2 = scoreMethod ?r0"
    by (simp_all add: setConnWrapper_def)
  ultimately have rd: "ready be (Y - {be}) ?r2" using same_lists(3)[of ?r2 ?r0 be "Y - {be}"] by blast
  have "\<not> emptyUnhealthy (bheap ?r2 be)"
    by (simp add: setConnWrapper_def emptyUnhealthy_def)
  then have ok: "False \<or> be \<notin> set (backends ?r2) \<or>
      (emptyUnhealthy (bheap ?r2 be) \<longrightarrow> be \<in> Y - {be} \<and> connScore (bheap ?r2 be) = 0)"
    by blast
  show ?thesis unfolding addConn_alt by (rule adjust_ready[OF rd ok])
qed

lemma isExcluded_set: "isExcluded ex a \<longleftrightarrow> a \<in> set ex"
  by (induction ex) auto

lemma inv_same:
  assumes "routerInv r" "backends r' = backends r" "bheap r' = bheap r" "bnext r' = bnext r"
    "scoreMethod r' = scoreMethod r"
  shows "routerInv r'"
  using assms same_lists(2)[of r' r "{}"] by (simp add: routerInv_def)

lemma routeOnce_inv:
  assumes "routerInv r"
  shows "routerInv (fst (routeOnce r ex))"
proof (cases "observeError r")
  case (Some e)
  then show ?thesis using assms by (simp add: routeOnce_def)
next
  case None
  show ?thesis
  proof (cases "routeLoop (bheap r) ex (rev (backends r))")
    case N: None
    have "routerInv (Refresh r)" using assms by (rule inv_same) (simp_all add: Refresh_def)
    then show ?thesis using None N assms by (simp add: routeOnce_def)
  next
    case (Some be)
    have "invX ({} - {be}) (adjustBackendList (updBackend be (\<lambda>x. x\<lparr>connScore := connScore x + 1\<rparr>) r) be False)"
      using assms unfolding routerInv_def by (rule incr_inv)
    then show ?thesis using None Some by (simp add: routeOnce_def routerInv_def)
  qed
qed

lemma onCreateConn_inv:
  assumes "routerInv r"
  shows "routerInv (onCreateConn r a c succeed)"
proof -
  obtain r1 be where e: "ensureBackend r a True = (r1, be)" by (cases "ensureBackend r a True") auto
  have i1: "invX {be} r1" using ensureBackend_inv(1)[OF _ e, of "{}"] assms by (simp add: routerInv_def)
  show ?thesis
  proof (cases succeed)
    case True
    let ?r2 = "r1\<lparr>wheap := (wheap r1)(wnext r1 := \<lparr>conn = c, phase = phaseNotRedirected,
                       lastRedirect = 0, redirectingBackend = None\<rparr>), wnext := Suc (wnext r1)\<rparr>"
    have "invX {be} ?r2" using i1 same_lists(2)[of ?r2 r1 "{be}"] by simp
    then have "invX ({be} - {be}) (addConn ?r2 be (wnext r1))" by (rule addConn_inv)
    then show ?thesis using e True by (simp add: onCreateConn_def Let_def routerInv_def)
  next
    case False
    have "invX ({be} - {be}) (adjustBackendList (updBackend be (\<lambda>b. b\<lparr>connScore := connScore b - 1\<rparr>) r1) be True)"
      using i1 upd_True_inv[of "{be}" r1 "\<lambda>b. b\<lparr>connScore := connScore b - 1\<rparr>" be] by simp
    then show ?thesis using e False by (simp add: onCreateConn_def Let_def routerInv_def)
  qed
qed

lemma onRedirectFinished_inv:
  assumes "routerInv r" and o: "onRedirectFinished r fromAddr toAddr c succeed = Some r'"
  shows "routerInv r'"
proof -
  obtain r1 fromBe where e1: "ensureBackend r fromAddr True = (r1, fromBe)"
    by (cases "ensureBackend r fromAddr True") auto
  obtain r2 toBe where e2: "ensureBackend r1 toAddr False = (r2, toBe)"
    by (cases "ensureBackend r1 toAddr False") auto
  have i1: "invX {fromBe} r1" using ensureBackend_inv(1)[OF _ e1, of "{}"] assms by (simp add: routerInv_def)
  have i2: "invX {toBe, fromBe} r2" using ensureBackend_inv(1)[OF i1 e2] by simp
  obtain ce where ce: "getConnWrapper r2 c = Some ce"
    using o e1 e2 by (auto simp: onRedirectFinished_def split: option.splits)
  let ?w = "eheap r2 ce"
  show ?thesis
  proof (cases succeed)
    case True
    let ?r3 = "addConn (removeConn r2 fromBe ce) toBe ?w"
    have "invX ({toBe, fromBe} - {fromBe}) (removeConn r2 fromBe ce)"
      using i2 by (rule removeConn_inv)
    then have "invX ({toBe, fromBe} - {fromBe} - {toBe}) ?r3" by (rule addConn_inv)
    moreover have "{toBe, fromBe} - {fromBe} - {toBe} = {}" by blast
    ultimately have i3: "routerInv ?r3" by (simp add: routerInv_def)
    have r': "r' = updConn ?w (\<lambda>x. x\<lparr>redirectingBackend := None\<rparr>)
                 (updConn ?w (\<lambda>x. x\<lparr>phase := phaseRedirectEnd\<rparr>) ?r3)"
      using o e1 e2 ce True by (simp add: onRedirectFinished_def Let_def)
    show ?thesis unfolding r' using i3 by (rule inv_same) simp_all
  next
    case False
    let ?ra = "adjustBackendList (updBackend fromBe (\<lambda>b. b\<lparr>connScore := connScore b + 1\<rparr>) r2) fromBe False"
    let ?rb = "adjustBackendList (updBackend toBe (\<lambda>b. b\<lparr>connScore := connScore b - 1\<rparr>) ?ra) toBe True"
    have ia: "invX ({toBe, fromBe} - {fromBe}) ?ra" using i2 by (rule incr_inv)
    have "invX ({toBe, fromBe} - {fromBe} - {toBe}) ?rb"
      using ia upd_True_inv[of "{toBe, fromBe} - {fromBe}" ?ra "\<lambda>b. b\<lparr>connScore := connScore b - 1\<rparr>" toBe]
      by simp
    moreover have "{toBe, fromBe} - {fromBe} - {toBe} = {}" by blast
    ultimately have i3: "routerInv ?rb" by (simp add: routerInv_def)
    have r': "r' = updConn ?w (\<lambda>x. x\<lparr>redirectingBackend := None\<rparr>)
                 (updConn ?w (\<lambda>x. x\<lparr>phase := phaseRedirectFail\<rparr>) ?rb)"
      using o e1 e2 ce False by (simp add: onRedirectFinished_def Let_def)
    show ?thesis unfolding r' using i3 by (rule inv_same) simp_all
  qed
qed


lemma lookup_upd_other:
  assumes "addr (f (bheap r b)) = addr (bheap r b)"
  shows "lookupBackend (updBackend b f r) a fw = lookupBackend r a fw"
proof -
  have "\<And>xs. lookupLoop ((bheap r)(b := f (bheap r b))) a xs = lookupLoop (bheap r) a xs"
  proof -
    fix xs show "lookupLoop ((bheap r)(b := f (bheap r b))) a xs = lookupLoop (bheap r) a xs"
      using assms by (induction xs) auto
  qed
  then show ?thesis by (simp add: lookupBackend_def)
qed

lemma lookupBackend_same:
  assumes "backends r' = backends r" "bheap r' = bheap r"
  shows "lookupBackend r' a fw = lookupBackend r a fw"
  using assms by (simp add: lookupBackend_def)

lemma OnConnClosed_inv:
  assumes "routerInv r" and o: "OnConnClosed r a c = Some r'"
  shows "routerInv r'"
proof -
  obtain r1 be where e: "ensureBackend r a True = (r1, be)" by (cases "ensureBackend r a True") auto
  have i1: "invX {be} r1" using ensureBackend_inv(1)[OF _ e, of "{}"] assms by (simp add: routerInv_def)
  obtain ce where ce: "getConnWrapper r1 c = Some ce"
    using o e by (auto simp: OnConnClosed_def split: option.splits)
  let ?w = "eheap r1 ce"
  let ?dec = "\<lambda>b. b\<lparr>connScore := connScore b - 1\<rparr>"
  show ?thesis
  proof (cases "redirectingBackend (wheap r1 ?w)")
    case None
    let ?r2 = "updBackend be ?dec r1"
    have "ready be ({be} - {be}) ?r2" using i1 upd_ready_inv[of "{be}" r1 ?dec be] by simp
    then have "ready be ({be} - {be}) (updBackend be (\<lambda>b. b\<lparr>connList := remove1 ce (connList b)\<rparr>) ?r2)"
      using upd_ready[of be "{be} - {be}" ?r2 "\<lambda>b. b\<lparr>connList := remove1 ce (connList b)\<rparr>"] by simp
    then have "invX ({be} - {be}) (removeConn ?r2 be ce)"
      unfolding removeConn_def by (rule adjust_ready) simp
    moreover have "r' = removeConn ?r2 be ce"
      using o e ce None by (simp add: OnConnClosed_def Let_def)
    ultimately show ?thesis by (simp add: routerInv_def)
  next
    case (Some rb)
    let ?ru = "updBackend rb ?dec r1"
    let ?r' = "updConn ?w (\<lambda>x. x\<lparr>redirectingBackend := None\<rparr>) ?ru"
    let ?r2 = "case lookupBackend ?r' (addr (bheap ?r' rb)) True of
                 Some redirectingBe \<Rightarrow> adjustBackendList ?r' redirectingBe True | None \<Rightarrow> ?r'"
    have lk: "lookupBackend ?r' (addr (bheap ?r' rb)) True = lookupBackend r1 (addr (bheap r1 rb)) True"
      using lookupBackend_same[of ?r' ?ru] lookup_upd_other[of ?dec r1 rb] by simp
    have i2: "invX {be} ?r2"
    proof (cases "rb \<in> set (backends r1)")
      case True
      then have "lookupBackend r1 (addr (bheap r1 rb)) True = Some rb"
        using i1 lookupBackend_distinct[of r1 rb True] by (simp add: invX_def)
      then have eq: "?r2 = adjustBackendList ?r' rb True" using lk by simp
      have "ready rb ({be} - {rb}) ?ru" using i1 upd_ready_inv[of "{be}" r1 ?dec rb] by simp
      then have "ready rb ({be} - {rb}) ?r'" using same_lists(3)[of ?r' ?ru rb "{be} - {rb}"] by simp
      then have "invX ({be} - {rb}) (adjustBackendList ?r' rb True)" by (rule adjust_ready) simp
      then show ?thesis unfolding eq by (rule invX_mono) blast
    next
      case False
      have "invX {be} ?ru" using i1 upd_absent[OF False, of "{be}" ?dec] by simp
      then have iu: "invX {be} ?r'" using same_lists(2)[of ?r' ?ru "{be}"] by simp
      show ?thesis
      proof (cases "lookupBackend r1 (addr (bheap r1 rb)) True")
        case None
        then show ?thesis using lk iu by simp
      next
        case (Some e)
        have "invX {be} (adjustBackendList ?r' e True)"
          using invX_ready[OF iu, of e] by (rule adjust_ready) simp
        then show ?thesis using lk Some by simp
      qed
    qed
    have "invX ({be} - {be}) (removeConn ?r2 be ce)" using i2 by (rule removeConn_inv)
    moreover have "r' = removeConn ?r2 be ce"
      using o e ce Some by (simp add: OnConnClosed_def Let_def)
    ultimately show ?thesis by (simp add: routerInv_def)
  qed
qed

lemma healthStep_inv:
  assumes "routerInv (fst rs)"
  shows "routerInv (fst (healthStep a h rs))"
proof -
  let ?r = "fst rs"
  have i: "invX {} ?r" using assms by (simp add: routerInv_def)
  show ?thesis
  proof (cases "lookupBackend ?r a True")
    case None
    show ?thesis
    proof (cases "Status h \<noteq> StatusCannotConnect")
      case False
      then show ?thesis using None assms by (simp add: healthStep_def Let_def)
    next
      case True
      let ?nb = "\<lparr>addr = a, health = h, connScore = 0, connList = []\<rparr>"
      let ?r1 = "?r\<lparr>bheap := (bheap ?r)(bnext ?r := ?nb), bnext := Suc (bnext ?r),
                         backends := backends ?r @ [bnext ?r]\<rparr>"
      have rd: "ready (bnext ?r) {} ?r1"
        using i None by (intro alloc_ready[where a = a and nb = ?nb]) (auto simp: lookupBackend_None)
      have "\<not> emptyUnhealthy (bheap ?r1 (bnext ?r))" using True by (simp add: emptyUnhealthy_def)
      then have ok: "False \<or> bnext ?r \<notin> set (backends ?r1) \<or>
         (emptyUnhealthy (bheap ?r1 (bnext ?r)) \<longrightarrow> bnext ?r \<in> {} \<and> connScore (bheap ?r1 (bnext ?r)) = 0)"
        by blast
      have "invX {} (adjustBackendList ?r1 (bnext ?r) False)" by (rule adjust_ready[OF rd ok])
      then show ?thesis using None True by (simp add: healthStep_def Let_def routerInv_def)
    qed
  next
    case (Some be)
    show ?thesis
    proof (cases "health (bheap ?r be) \<noteq> h")
      case False
      then show ?thesis using Some assms by (simp add: healthStep_def Let_def)
    next
      case True
      have "invX ({} - {be}) (adjustBackendList (updBackend be (\<lambda>b. b\<lparr>health := h\<rparr>) ?r) be True)"
        using i upd_True_inv[of "{}" ?r "\<lambda>b. b\<lparr>health := h\<rparr>" be] by simp
      then show ?thesis using Some True by (simp add: healthStep_def Let_def routerInv_def)
    qed
  qed
qed

lemma healthLoop_inv: "routerInv (fst rs) \<Longrightarrow> routerInv (fst (healthLoop m order rs))"
  by (induction order arbitrary: rs) (auto simp: healthStep_inv split: option.splits)

lemma updateBackendHealth_inv:
  assumes "routerInv r"
  shows "routerInv (updateBackendHealth r hr order)"
proof (cases "Error hr")
  case (Some e)
  have "routerInv (r\<lparr>observeError := Some e\<rparr>)" using assms by (rule inv_same) simp_all
  then show ?thesis using Some by (simp add: updateBackendHealth_def)
next
  case None
  let ?r0 = "r\<lparr>observeError := None\<rparr>"
  have i0: "routerInv ?r0" using assms by (rule inv_same) simp_all
  let ?rs = "healthLoop (addRemoved (bheap r) (backends r) (Backends hr)) order (?r0, [])"
  have i1: "routerInv (fst ?rs)" using i0 healthLoop_inv[of "(?r0, [])"] by simp
  have i2: "routerInv ((fst ?rs)\<lparr>serverVersion := snd ?rs\<rparr>)" using i1 by (rule inv_same) simp_all
  show ?thesis
  proof (cases "snd ?rs = []")
    case True
    then show ?thesis using None i1 by (simp add: updateBackendHealth_def Let_def)
  next
    case False
    then show ?thesis using None i2 by (simp add: updateBackendHealth_def Let_def)
  qed
qed

lemma findBusiest_Some:
  "findBusiest h xs = Some b \<Longrightarrow> b \<in> set xs \<and> connList (h b) \<noteq> []"
  by (induction xs) (auto split: if_splits)

lemma rebalanceStep_Some:
  assumes "rebalanceStep lowRatio minInterval curTime r = Some r'"
  obtains busiestEle ce where "findBusiest (bheap r) (backends r) = Some busiestEle"
    "\<not> lowRatio (score r busiestEle) (score r (last (backends r)))"
    "pickConn r minInterval curTime (connList (bheap r busiestEle)) = Some ce"
    "r' = redirectTo r busiestEle (last (backends r)) ce curTime"
proof (cases "findBusiest (bheap r) (backends r)")
  case None
  then show ?thesis using assms by (simp add: rebalanceStep_def)
next
  case (Some busiestEle)
  note b = Some
  show ?thesis
  proof (cases "lowRatio (score r busiestEle) (score r (last (backends r)))")
    case True
    then show ?thesis using assms b by (simp add: rebalanceStep_def)
  next
    case False
    show ?thesis
    proof (cases "pickConn r minInterval curTime (connList (bheap r busiestEle))")
      case None
      then show ?thesis using assms b False by (simp add: rebalanceStep_def)
    next
      case (Some ce)
      have "rebalanceStep lowRatio minInterval curTime r = Some (redirectTo r busiestEle (last (backends r)) ce curTime)"
        unfolding rebalanceStep_def b using False Some by simp
      then show ?thesis using that[OF b False Some] assms by simp
    qed
  qed
qed

lemma redirectTo_inv:
  assumes "routerInv r"
  shows "routerInv (redirectTo r busiestEle idlestEle ce curTime)"
proof -
  let ?w = "eheap r ce"
  let ?r1 = "adjustBackendList (updBackend busiestEle (\<lambda>b. b\<lparr>connScore := connScore b - 1\<rparr>) r) busiestEle True"
  let ?r2 = "adjustBackendList (updBackend idlestEle (\<lambda>b. b\<lparr>connScore := connScore b + 1\<rparr>) ?r1) idlestEle False"
  have "invX ({} - {busiestEle}) ?r1"
    using assms(1) upd_True_inv[of "{}" r "\<lambda>b. b\<lparr>connScore := connScore b - 1\<rparr>" busiestEle]
    by (simp add: routerInv_def)
  then have "invX ({} - {busiestEle} - {idlestEle}) ?r2" by (rule incr_inv)
  then have "routerInv ?r2" by (simp add: routerInv_def)
  then show ?thesis unfolding redirectTo_def Let_def by (rule inv_same) simp_all
qed

lemma rebalanceStep_inv:
  assumes "routerInv r" and s: "rebalanceStep lowRatio minInterval curTime r = Some r'"
  shows "routerInv r'"
proof -
  from s obtain busiestEle ce where "r' = redirectTo r busiestEle (last (backends r)) ce curTime"
    by (rule rebalanceStep_Some)
  then show ?thesis using assms(1) by (simp add: redirectTo_inv)
qed

lemma rebalance_inv: "routerInv r \<Longrightarrow> routerInv (rebalance lowRatio minInterval curTime maxNum r)"
proof (induction maxNum arbitrary: r)
  case 0
  then show ?case by simp
next
  case (Suc n)
  show ?case
  proof (cases "rebalanceStep lowRatio minInterval curTime r")
    case None
    then show ?thesis using Suc.prems by simp
  next
    case (Some r')
    then have "routerInv r'" using Suc.prems rebalanceStep_inv by blast
    then show ?thesis using Some Suc.IH by simp
  qed
qed

lemma inv_new: "routerInv (NewScoreBasedRouter sf)"
  by (simp add: routerInv_def invX_def base_def descending_def NewScoreBasedRouter_def)

lemma redirectConns_lists:
  "backends (redirectConns b ces r) = backends r \<and> bheap (redirectConns b ces r) = bheap r
   \<and> bnext (redirectConns b ces r) = bnext r \<and> scoreMethod (redirectConns b ces r) = scoreMethod r"
  by (induction ces arbitrary: r) simp_all

lemma redirectBackends_lists:
  "backends (redirectBackends bs r) = backends r \<and> bheap (redirectBackends bs r) = bheap r
   \<and> bnext (redirectBackends bs r) = bnext r \<and> scoreMethod (redirectBackends bs r) = scoreMethod r"
  by (induction bs arbitrary: r) (simp_all add: redirectConns_lists)

lemma RedirectConnections_inv: "routerInv r \<Longrightarrow> routerInv (RedirectConnections r)"
  unfolding RedirectConnections_def
  by (rule inv_same) (simp_all add: redirectBackends_lists)

lemma RefreshBackend_inv:
  assumes "routerInv r" "RefreshBackend r = Some r'"
  shows "routerInv r'"
proof -
  have "r' = Refresh r" using assms(2) by (simp add: RefreshBackend_def split: if_splits)
  moreover have "routerInv (Refresh r)" using assms(1) by (rule inv_same) (simp_all add: Refresh_def)
  ultimately show ?thesis by simp
qed

lemma reachable_inv: "reachable r \<Longrightarrow> routerInv r"
proof (induction rule: reachable.induct)
  case reach_new
  show ?case by (rule inv_new)
next
  case (reach_Init r)
  from reach_Init.IH show ?case by (rule inv_same) (simp_all add: Init_def)
next
  case (reach_routeOnce r excluded)
  from reach_routeOnce.IH show ?case by (rule routeOnce_inv)
next
  case (reach_onCreateConn r a c succeed)
  from reach_onCreateConn.IH show ?case by (rule onCreateConn_inv)
next
  case (reach_OnRedirectSucceed r fromAddr toAddr c r')
  have "onRedirectFinished r fromAddr toAddr c True = Some r'"
    using reach_OnRedirectSucceed.hyps(2) by (simp add: OnRedirectSucceed_def)
  with reach_OnRedirectSucceed.IH show ?case by (rule onRedirectFinished_inv)
next
  case (reach_OnRedirectFail r fromAddr toAddr c r')
  have "onRedirectFinished r fromAddr toAddr c False = Some r'"
    using reach_OnRedirectFail.hyps(2) by (simp add: OnRedirectFail_def)
  with reach_OnRedirectFail.IH show ?case by (rule onRedirectFinished_inv)
next
  case (reach_OnConnClosed r a c r')
  from reach_OnConnClosed.IH reach_OnConnClosed.hyps(2) show ?case by (rule OnConnClosed_inv)
next
  case (reach_updateBackendHealth r healthResults order)
  from reach_updateBackendHealth.IH show ?case by (rule updateBackendHealth_inv)
next
  case (reach_rebalance r lowRatio minInterval curTime maxNum)
  from reach_rebalance.IH show ?case by (rule rebalance_inv)
next
  case (reach_RefreshBackend r r')
  from reach_RefreshBackend.IH reach_RefreshBackend.hyps(2) show ?case by (rule RefreshBackend_inv)
next
  case (reach_RedirectConnections r)
  from reach_RedirectConnections.IH show ?case by (rule RedirectConnections_inv)
qed

lemma routeLoop_spec: "routeLoop (bheap r) excluded xs = find (qualifies r excluded) xs"
  by (induction xs) (auto simp: qualifies_def isExcluded_set split: BackendStatus.splits)

lemma routeOnce_Some:
  assumes "observeError r = None" "spec_firstQualifying r excluded = Some be"
  shows "routeOnce r excluded =
           (adjustBackendList (updBackend be (\<lambda>b. b\<lparr>connScore := connScore b + 1\<rparr>) r) be False, Inr be)"
  using assms by (simp add: routeOnce_def routeLoop_spec spec_firstQualifying_def)

lemma routeOnce_None:
  assumes "observeError r = None" "spec_firstQualifying r excluded = None"
  shows "routeOnce r excluded = ((if hasObserver r then Refresh r else r), Inl ErrNoBackend)"
  using assms by (simp add: routeOnce_def routeLoop_spec spec_firstQualifying_def)

lemma routeOnce_error:
  assumes "observeError r = Some e"
  shows "routeOnce r excluded = (r, Inl (ErrObserve e))"
  using assms by (simp add: routeOnce_def)

lemma find_rev_Some:
  assumes "find P (rev xs) = Some b"
  shows "\<exists>pre post. xs = pre @ b # post \<and> P b \<and> (\<forall>x\<in>set post. \<not> P x)"
proof -
  from assms obtain i where i: "i < length (rev xs)" "P (rev xs ! i)" "b = rev xs ! i"
    "\<forall>j<i. \<not> P (rev xs ! j)" by (auto simp: find_Some_iff)
  have "rev xs = take i (rev xs) @ b # drop (Suc i) (rev xs)"
    using i(1,3) by (simp add: id_take_nth_drop)
  then have "xs = rev (drop (Suc i) (rev xs)) @ b # rev (take i (rev xs))"
    by (metis rev_append rev_rev_ident rev.simps(2) append_Cons append_Nil append_assoc)
  moreover have "\<forall>x\<in>set (rev (take i (rev xs))). \<not> P x"
    using i(1,4) by (auto simp: in_set_conv_nth)
  ultimately show ?thesis using i(2,3) by blast
qed

lemma incr_adjust_descending:
  assumes "distinct (backends r)" "descending (score r) (backends r)"
  shows "descending (score (adjustBackendList (updBackend be f r) be False))
           (backends (adjustBackendList (updBackend be f r) be False))"
proof -
  let ?q = "updBackend be f r"
  have "descending (score ?q) (remove1 be (backends r)) = descending (score r) (remove1 be (backends r))"
    using assms(1) by (intro descending_cong) (auto simp: score_updBackend)
  then have "descending (score ?q) (remove1 be (backends ?q))"
    using assms(2) by (simp add: descending_remove1)
  then have "descending (score ?q) (adjustList (score ?q) be (backends ?q))"
    using assms(1) by (intro adjustList_descending) simp_all
  then show ?thesis by (simp add: backends_adjust)
qed

lemma ConnCountLoop_sum:
  "ConnCountLoop h xs j = j + sum_list (map (\<lambda>be. int (length (connList (h be)))) xs)"
  by (induction xs arbitrary: j) auto

lemma sum_list_mset_cong:
  assumes "mset xs = mset ys"
  shows "sum_list (map f xs) = (sum_list (map f ys) :: int)"
proof -
  have "sum_mset (image_mset f (mset xs)) = sum_mset (image_mset f (mset ys))" using assms by simp
  then show ?thesis by (metis mset_map sum_mset_sum_list)
qed

lemma routeOnce_Inr:
  assumes "routeOnce r excluded = (r1, Inr be)"
  shows "observeError r = None" "spec_firstQualifying r excluded = Some be"
    "r1 = adjustBackendList (updBackend be (\<lambda>b. b\<lparr>connScore := connScore b + 1\<rparr>) r) be False"
proof -
  show oe: "observeError r = None" using assms by (cases "observeError r") (auto simp: routeOnce_def)
  show q: "spec_firstQualifying r excluded = Some be"
    using assms oe by (cases "spec_firstQualifying r excluded") (auto simp: routeOnce_None routeOnce_Some)
  show "r1 = adjustBackendList (updBackend be (\<lambda>b. b\<lparr>connScore := connScore b + 1\<rparr>) r) be False"
    using assms oe q by (simp add: routeOnce_Some)
qed

lemma spec_firstQualifying_Some:
  "spec_firstQualifying r excluded = Some be \<Longrightarrow> be \<in> set (backends r) \<and> qualifies r excluded be"
  unfolding spec_firstQualifying_def using find_rev_Some[of "qualifies r excluded" "backends r" be]
  by auto

lemma OnConnClosed_alt:
  "OnConnClosed r a c =
     (case getConnWrapper (fst (ensureBackend r a True)) c of
        None \<Rightarrow> None
      | Some ce \<Rightarrow>
          Some (removeConn
             (releaseScore (fst (ensureBackend r a True)) (snd (ensureBackend r a True))
                (eheap (fst (ensureBackend r a True)) ce))
             (snd (ensureBackend r a True)) ce))"
  by (simp add: OnConnClosed_def releaseScore_def Let_def split_beta split: option.splits)

lemma releaseScore_lists:
  "set (backends (releaseScore r1 be w)) \<subseteq> set (backends r1)"
  "bnext (releaseScore r1 be w) = bnext r1"
  "eheap (releaseScore r1 be w) = eheap r1"
  "routerKey (releaseScore r1 be w) = routerKey r1"
  by (auto simp: releaseScore_def Let_def split: option.splits dest!: set_backends_adjust[THEN subsetD])

lemma releaseScore_bheap:
  "bheap (releaseScore r1 be w) =
     (case redirectingBackend (wheap r1 w) of
        Some rb \<Rightarrow> (bheap r1)(rb := (bheap r1 rb)\<lparr>connScore := connScore (bheap r1 rb) - 1\<rparr>)
      | None \<Rightarrow> (bheap r1)(be := (bheap r1 be)\<lparr>connScore := connScore (bheap r1 be) - 1\<rparr>))"
  by (auto simp: releaseScore_def Let_def split: option.splits)

lemma releaseScore_wheap:
  "wheap (releaseScore r1 be w) =
     (case redirectingBackend (wheap r1 w) of
        Some rb \<Rightarrow> (wheap r1)(w := (wheap r1 w)\<lparr>redirectingBackend := None\<rparr>)
      | None \<Rightarrow> wheap r1)"
  by (auto simp: releaseScore_def Let_def split: option.splits)

lemma releaseScore_fields:
  "addr (bheap (releaseScore r1 be w) x) = addr (bheap r1 x)"
  "health (bheap (releaseScore r1 be w) x) = health (bheap r1 x)"
  "connList (bheap (releaseScore r1 be w) x) = connList (bheap r1 x)"
  by (auto simp: releaseScore_bheap split: option.splits)

lemma removeConn_bheap:
  "bheap (removeConn r be ce) = (bheap r)(be := (bheap r be)\<lparr>connList := remove1 ce (connList (bheap r be))\<rparr>)"
  by (simp add: removeConn_def)

lemma removeConn_other:
  "wheap (removeConn r be ce) = wheap r" "routerKey (removeConn r be ce) = routerKey r"
  "eheap (removeConn r be ce) = eheap r"
  by (simp_all add: removeConn_def)

lemma base_upd:
  assumes "base r" "addr (f (bheap r b)) = addr (bheap r b)"
  shows "base (updBackend b f r)"
proof -
  have m: "map (\<lambda>x. addr (bheap (updBackend b f r) x)) (backends (updBackend b f r))
             = map (\<lambda>x. addr (bheap r x)) (backends r)"
    using assms(2) by auto
  show ?thesis unfolding base_def m using assms(1) by (simp add: base_def)
qed

lemma base_adjust:
  assumes "base r"
  shows "base (adjustBackendList r b fl)"
proof (cases "fl \<and> emptyUnhealthy (bheap r b)")
  case True
  then have "backends (adjustBackendList r b fl) = remove1 b (backends r)"
    by (simp add: backends_adjust)
  with assms show ?thesis by (rule base_remove1) simp_all
next
  case False
  then have "backends (adjustBackendList r b fl) = adjustList (score r) b (backends r)"
    by (auto simp: backends_adjust)
  then have "mset (backends (adjustBackendList r b fl)) = mset (backends r)"
    by (simp add: mset_adjustList)
  with assms show ?thesis by (rule base_mset) simp_all
qed

lemma base_decr:
  assumes "base r"
  shows "base (updBackend b (\<lambda>b. b\<lparr>connScore := connScore b - 1\<rparr>) r)"
  using assms by (rule base_upd) simp

lemma base_releaseScore:
  assumes "base r1"
  shows "base (releaseScore r1 be w)"
proof (cases "redirectingBackend (wheap r1 w)")
  case None
  have "base (updBackend be (\<lambda>b. b\<lparr>connScore := connScore b - 1\<rparr>) r1)"
    using assms by (rule base_decr)
  then show ?thesis using None by (simp add: releaseScore_def)
next
  case (Some rb)
  let ?ru = "updBackend rb (\<lambda>b. b\<lparr>connScore := connScore b - 1\<rparr>) r1"
  let ?r' = "updConn w (\<lambda>x. x\<lparr>redirectingBackend := None\<rparr>) ?ru"
  have "base ?ru" using assms by (rule base_decr)
  moreover have "base ?r' = base ?ru" by (rule same_lists(1)) simp_all
  ultimately have b: "base ?r'" by simp
  show ?thesis
  proof (cases "lookupBackend ?r' (addr (bheap ?r' rb)) True")
    case None
    then show ?thesis using Some b by (simp add: releaseScore_def Let_def)
  next
    case S: (Some e)
    have "base (adjustBackendList ?r' e True)" using b by (rule base_adjust)
    then show ?thesis using Some S by (simp add: releaseScore_def Let_def)
  qed
qed

lemma ensureBackend_new:
  assumes "lookupBackend r a fw = None"
  shows "snd (ensureBackend r a fw) = bnext r"
    "bheap (fst (ensureBackend r a fw)) =
       (bheap r)(bnext r := \<lparr>addr = a, health = cannotConnect, connScore = 0, connList = []\<rparr>)"
    "set (backends (fst (ensureBackend r a fw))) = insert (bnext r) (set (backends r))"
  using assms by (simp_all add: ensureBackend_def Let_def)

lemma registered_None: "lookupBackend r a fw = None \<longleftrightarrow> registered r a = {}"
  by (auto simp: lookupBackend_None registered_def)

lemma registered_Some:
  assumes "base r"
  shows "lookupBackend r a fw = Some be \<longleftrightarrow> registered r a = {be}"
proof
  assume l: "lookupBackend r a fw = Some be"
  have m: "be \<in> registered r a" using lookupBackend_Some[OF l] by (simp add: registered_def)
  have "\<And>x. x \<in> registered r a \<Longrightarrow> x = be"
  proof -
    fix x assume x: "x \<in> registered r a"
    then have xs: "x \<in> set (backends r)" and xa: "addr (bheap r x) = a"
      by (simp_all add: registered_def)
    have "lookupBackend r (addr (bheap r x)) fw = Some x"
      using assms xs by (rule lookupBackend_distinct)
    then show "x = be" using l xa by simp
  qed
  then show "registered r a = {be}" using m by blast
next
  assume "registered r a = {be}"
  then have "be \<in> registered r a" by simp
  then have xs: "be \<in> set (backends r)" and xa: "addr (bheap r be) = a"
    by (simp_all add: registered_def)
  have "lookupBackend r (addr (bheap r be)) fw = Some be"
    using assms xs by (rule lookupBackend_distinct)
  then show "lookupBackend r a fw = Some be" using xa by simp
qed

lemma map_of_addRemoved:
  "map_of m a = Some h \<Longrightarrow> map_of (addRemoved hp xs m) a = Some h"
  by (induction xs arbitrary: m) (auto split: option.splits)

lemma healthLoop_append:
  "healthLoop m (xs @ ys) rs = healthLoop m ys (healthLoop m xs rs)"
  by (induction xs arbitrary: rs) (auto split: option.splits)

lemma healthStep_other:
  assumes b: "base (fst rs)" and ne: "a' \<noteq> a"
  shows "registered (fst (healthStep a' h' rs)) a = registered (fst rs) a
     \<and> (\<forall>be\<in>registered (fst rs) a. bheap (fst (healthStep a' h' rs)) be = bheap (fst rs) be)"
proof -
  let ?r = "fst rs"
  show ?thesis
  proof (cases "lookupBackend ?r a' True")
    case None
    show ?thesis
    proof (cases "Status h' \<noteq> StatusCannotConnect")
      case False
      then show ?thesis using None by (simp add: healthStep_def Let_def)
    next
      case True
      let ?nb = "\<lparr>addr = a', health = h', connScore = 0, connList = []\<rparr>"
      let ?r1 = "?r\<lparr>bheap := (bheap ?r)(bnext ?r := ?nb), bnext := Suc (bnext ?r),
                         backends := backends ?r @ [bnext ?r]\<rparr>"
      have eq: "fst (healthStep a' h' rs) = adjustBackendList ?r1 (bnext ?r) False"
        using None True by (simp add: healthStep_def Let_def)
      have fresh: "bnext ?r \<notin> set (backends ?r)" using b by (auto simp: base_def)
      have "registered (adjustBackendList ?r1 (bnext ?r) False) a = registered ?r a"
        using fresh ne by (auto simp: registered_def)
      moreover have "\<forall>be\<in>registered ?r a. bheap (adjustBackendList ?r1 (bnext ?r) False) be = bheap ?r be"
        using fresh by (auto simp: registered_def)
      ultimately show ?thesis unfolding eq by simp
    qed
  next
    case (Some be')
    note f = lookupBackend_Some[OF Some]
    show ?thesis
    proof (cases "health (bheap ?r be') \<noteq> h'")
      case False
      then show ?thesis using Some by (simp add: healthStep_def Let_def)
    next
      case True
      let ?ru = "updBackend be' (\<lambda>b. b\<lparr>health := h'\<rparr>) ?r"
      have eq: "fst (healthStep a' h' rs) = adjustBackendList ?ru be' True"
        using Some True by (simp add: healthStep_def Let_def)
      have d: "distinct (backends ?r)" using b by (simp add: base_def)
      have s: "set (backends (adjustBackendList ?ru be' True)) \<subseteq> set (backends ?r)"
        "set (backends ?r) - {be'} \<subseteq> set (backends (adjustBackendList ?ru be' True))"
        using d by (auto simp: backends_adjust set_adjustList)
      have "registered (adjustBackendList ?ru be' True) a = registered ?r a"
        using s f ne by (auto simp: registered_def)
      moreover have "\<forall>be\<in>registered ?r a. bheap (adjustBackendList ?ru be' True) be = bheap ?r be"
        using f ne by (auto simp: registered_def)
      ultimately show ?thesis unfolding eq by simp
    qed
  qed
qed

lemma routerInv_base: "routerInv r \<Longrightarrow> base r"
  by (simp add: routerInv_def invX_def)

lemma healthLoop_other:
  assumes "routerInv (fst rs)" "a \<notin> set order"
  shows "registered (fst (healthLoop m order rs)) a = registered (fst rs) a
     \<and> (\<forall>be\<in>registered (fst rs) a. bheap (fst (healthLoop m order rs)) be = bheap (fst rs) be)"
  using assms
proof (induction order arbitrary: rs)
  case Nil
  then show ?case by simp
next
  case (Cons a' rest)
  show ?case
  proof (cases "map_of m a'")
    case None
    then show ?thesis using Cons by simp
  next
    case (Some h')
    have ne: "a' \<noteq> a" using Cons.prems(2) by auto
    note st = healthStep_other[OF routerInv_base[OF Cons.prems(1)] ne, of h']
    have i: "routerInv (fst (healthStep a' h' rs))" using Cons.prems(1) by (rule healthStep_inv)
    have "a \<notin> set rest" using Cons.prems(2) by simp
    note ih = Cons.IH[OF i this]
    show ?thesis using Some st ih by simp
  qed
qed

lemma healthStep_self:
  assumes "registered (fst rs) a = {}"
  shows "if Status h \<noteq> StatusCannotConnect
         then registered (fst (healthStep a h rs)) a = {bnext (fst rs)}
            \<and> bheap (fst (healthStep a h rs)) (bnext (fst rs))
                 = \<lparr>addr = a, health = h, connScore = 0, connList = []\<rparr>
         else fst (healthStep a h rs) = fst rs"
proof -
  let ?r = "fst rs"
  have n: "lookupBackend ?r a True = None" using assms by (simp add: registered_None)
  show ?thesis
  proof (cases "Status h \<noteq> StatusCannotConnect")
    case False
    then show ?thesis using n by (simp add: healthStep_def Let_def)
  next
    case True
    let ?nb = "\<lparr>addr = a, health = h, connScore = 0, connList = []\<rparr>"
    let ?r1 = "?r\<lparr>bheap := (bheap ?r)(bnext ?r := ?nb), bnext := Suc (bnext ?r),
                       backends := backends ?r @ [bnext ?r]\<rparr>"
    have eq: "fst (healthStep a h rs) = adjustBackendList ?r1 (bnext ?r) False"
      using n True by (simp add: healthStep_def Let_def)
    have "registered (adjustBackendList ?r1 (bnext ?r) False) a = {bnext ?r}"
      using assms by (auto simp: registered_def)
    moreover have "bheap (adjustBackendList ?r1 (bnext ?r) False) (bnext ?r) = ?nb" by simp
    ultimately show ?thesis unfolding eq using True by simp
  qed
qed

lemma updateBackendHealth_lists:
  assumes "Error hr = None"
  shows "backends (updateBackendHealth r hr order)
           = backends (fst (healthLoop (addRemoved (bheap r) (backends r) (Backends hr)) order
                (r\<lparr>observeError := None\<rparr>, [])))"
    "bheap (updateBackendHealth r hr order)
           = bheap (fst (healthLoop (addRemoved (bheap r) (backends r) (Backends hr)) order
                (r\<lparr>observeError := None\<rparr>, [])))"
  using assms by (simp_all add: updateBackendHealth_def Let_def)

lemma pickConn_Some: "pickConn r mi ct xs = Some ce \<Longrightarrow> ce \<in> set xs"
  by (induction xs) (auto split: connPhase.splits if_splits)

lemma redirectTo_fields:
  "bheap (redirectTo r src tgt ce ct) =
     (let h1 = (bheap r)(src := (bheap r src)\<lparr>connScore := connScore (bheap r src) - 1\<rparr>)
      in h1(tgt := (h1 tgt)\<lparr>connScore := connScore (h1 tgt) + 1\<rparr>))"
  "wheap (redirectTo r src tgt ce ct) =
     (wheap r)(eheap r ce := (wheap r (eheap r ce))
        \<lparr>phase := phaseRedirectNotify, lastRedirect := ct, redirectingBackend := Some tgt\<rparr>)"
  "eheap (redirectTo r src tgt ce ct) = eheap r"
  "enext (redirectTo r src tgt ce ct) = enext r"
  "routerKey (redirectTo r src tgt ce ct) = routerKey r"
  "redirected (redirectTo r src tgt ce ct) = (conn (wheap r (eheap r ce)), tgt) # redirected r"
  "scoreMethod (redirectTo r src tgt ce ct) = scoreMethod r"
  by (simp_all add: redirectTo_def Let_def)

lemma redirectTo_set:
  assumes "connList (bheap r src) \<noteq> []"
  shows "set (backends (redirectTo r src tgt ce ct)) = set (backends r)"
proof -
  let ?ra = "updBackend src (\<lambda>b. b\<lparr>connScore := connScore b - 1\<rparr>) r"
  have "\<not> emptyUnhealthy (bheap ?ra src)" using assms by (simp add: emptyUnhealthy_def)
  then have "set (backends (adjustBackendList ?ra src True)) = set (backends r)"
    by (simp add: backends_adjust set_adjustList)
  then show ?thesis by (simp add: redirectTo_def Let_def)
qed

lemma rebalance_one:
  "rebalanceStep lowRatio mi ct r = Some r1 \<Longrightarrow> rebalance lowRatio mi ct (Suc 0) r = r1"
  by simp

lemma onRedirectFinished_found:
  assumes "lookupBackend r fromAddr True = Some fromBe" "lookupBackend r toAddr False = Some toBe"
    and "getConnWrapper r c = Some ce"
  shows "onRedirectFinished r fromAddr toAddr c True =
           Some (updConn (eheap r ce) (\<lambda>x. x\<lparr>redirectingBackend := None\<rparr>)
             (updConn (eheap r ce) (\<lambda>x. x\<lparr>phase := phaseRedirectEnd\<rparr>)
                (addConn (removeConn r fromBe ce) toBe (eheap r ce))))"
    "onRedirectFinished r fromAddr toAddr c False =
           Some (updConn (eheap r ce) (\<lambda>x. x\<lparr>redirectingBackend := None\<rparr>)
             (updConn (eheap r ce) (\<lambda>x. x\<lparr>phase := phaseRedirectFail\<rparr>)
                (adjustBackendList
                   (updBackend toBe (\<lambda>b. b\<lparr>connScore := connScore b - 1\<rparr>)
                      (adjustBackendList
                         (updBackend fromBe (\<lambda>b. b\<lparr>connScore := connScore b + 1\<rparr>) r)
                         fromBe False))
                   toBe True)))"
  using assms by (simp_all add: onRedirectFinished_def ensureBackend_found Let_def)

lemma addConn_fields:
  "bheap (addConn r be w) = (bheap r)(be := (bheap r be)\<lparr>connList := connList (bheap r be) @ [enext r]\<rparr>)"
  "eheap (addConn r be w) = (eheap r)(enext r := w)"
  "wheap (addConn r be w) = wheap r"
  "mset (backends (addConn r be w)) = mset (backends r)"
  by (simp_all add: addConn_alt setConnWrapper_def backends_adjust mset_adjustList)

lemma removeConn_backends:
  "backends (removeConn r be ce) =
     (if emptyUnhealthy ((bheap r be)\<lparr>connList := remove1 ce (connList (bheap r be))\<rparr>)
      then remove1 be (backends r)
      else adjustList (score (updBackend be (\<lambda>b. b\<lparr>connList := remove1 ce (connList b)\<rparr>) r)) be (backends r))"
  by (simp add: removeConn_def backends_adjust)

lemma ConnCount_set:
  assumes "distinct (backends r)"
  shows "snd (ConnCount r) = (\<Sum>be\<in>set (backends r). int (length (connList (bheap r be))))"
  using assms by (simp add: ConnCount_def ConnCountLoop_sum sum_list_distinct_conv_sum_set)

lemma sum_shift:
  fixes f g :: "nat \<Rightarrow> int"
  assumes "finite S" "s \<in> S" "t \<in> S" "s \<noteq> t" "g s = f s - 1" "g t = f t + 1"
    and "\<forall>x\<in>S. x \<noteq> s \<longrightarrow> x \<noteq> t \<longrightarrow> g x = f x"
  shows "sum g S = sum f S"
proof -
  have t': "t \<in> S - {s}" using assms(3,4) by simp
  have fin: "finite (S - {s})" using assms(1) by simp
  have "sum g S = g s + (g t + sum g (S - {s} - {t}))"
    using sum.remove[OF assms(1,2), of g] sum.remove[OF fin t', of g] by simp
  moreover have "sum f S = f s + (f t + sum f (S - {s} - {t}))"
    using sum.remove[OF assms(1,2), of f] sum.remove[OF fin t', of f] by simp
  moreover have "sum g (S - {s} - {t}) = sum f (S - {s} - {t})"
    using assms(7) by (intro sum.cong) auto
  ultimately show ?thesis using assms(5,6) by simp
qed

lemma redirect_succeed:
  assumes b1: "base r1" and src: "src \<in> set (backends r1)" and tgt: "tgt \<in> set (backends r1)"
    and ne: "src \<noteq> tgt" and ce: "ce \<in> set (connList (bheap r1 src))"
    and k: "getConnWrapper r1 c = Some ce"
  shows "\<exists>r2. OnRedirectSucceed r1 (addr (bheap r1 src)) (addr (bheap r1 tgt)) c = Some r2
     \<and> connList (bheap r2 src) = remove1 ce (connList (bheap r1 src))
     \<and> connList (bheap r2 tgt) = connList (bheap r1 tgt) @ [enext r1]
     \<and> eheap r2 (enext r1) = eheap r1 ce
     \<and> phase (wheap r2 (eheap r1 ce)) = phaseRedirectEnd
     \<and> redirectingBackend (wheap r2 (eheap r1 ce)) = None
     \<and> snd (ConnCount r2) = snd (ConnCount r1)"
proof -
  let ?w = "eheap r1 ce"
  let ?ra = "removeConn r1 src ce"
  let ?rb = "addConn ?ra tgt ?w"
  let ?r2 = "updConn ?w (\<lambda>x. x\<lparr>redirectingBackend := None\<rparr>)
              (updConn ?w (\<lambda>x. x\<lparr>phase := phaseRedirectEnd\<rparr>) ?rb)"
  have l1: "lookupBackend r1 (addr (bheap r1 src)) True = Some src"
    using b1 src by (rule lookupBackend_distinct)
  have l2: "lookupBackend r1 (addr (bheap r1 tgt)) False = Some tgt"
    using b1 tgt by (rule lookupBackend_distinct)
  have o: "OnRedirectSucceed r1 (addr (bheap r1 src)) (addr (bheap r1 tgt)) c = Some ?r2"
    unfolding OnRedirectSucceed_def by (rule onRedirectFinished_found(1)[OF l1 l2 k])
  have en: "enext ?ra = enext r1" by (simp add: removeConn_def)
  have hb: "bheap ?rb = (bheap ?ra)(tgt := (bheap ?ra tgt)\<lparr>connList := connList (bheap ?ra tgt) @ [enext r1]\<rparr>)"
    by (simp add: addConn_fields en)
  have cs: "connList (bheap ?rb src) = remove1 ce (connList (bheap r1 src))"
    using ne by (simp add: hb removeConn_bheap)
  have ct: "connList (bheap ?rb tgt) = connList (bheap r1 tgt) @ [enext r1]"
    using ne by (simp add: hb removeConn_bheap)
  have co: "\<And>x. x \<noteq> src \<Longrightarrow> x \<noteq> tgt \<Longrightarrow> connList (bheap ?rb x) = connList (bheap r1 x)"
    by (simp add: hb removeConn_bheap)
  have eh: "eheap ?rb (enext r1) = ?w" by (simp add: addConn_fields en removeConn_other)
  have d1: "distinct (backends r1)" using b1 by (simp add: base_def)
  let ?f1 = "\<lambda>x. int (length (connList (bheap r1 x)))"
  let ?f2 = "\<lambda>x. int (length (connList (bheap ?rb x)))"
  have "length (connList (bheap r1 src)) > 0" using ce by (cases "connList (bheap r1 src)") auto
  then have "Suc (length (remove1 ce (connList (bheap r1 src)))) = length (connList (bheap r1 src))"
    using ce by (simp add: length_remove1)
  then have fs: "?f2 src = ?f1 src - 1" unfolding cs by linarith
  have ft: "?f2 tgt = ?f1 tgt + 1" unfolding ct by simp
  have sh: "sum ?f2 (set (backends r1)) = sum ?f1 (set (backends r1))"
  proof (rule sum_shift[where s = src and t = tgt])
    show "finite (set (backends r1))" by simp
    show "src \<in> set (backends r1)" by (rule src)
    show "tgt \<in> set (backends r1)" by (rule tgt)
    show "src \<noteq> tgt" by (rule ne)
    show "?f2 src = ?f1 src - 1" by (rule fs)
    show "?f2 tgt = ?f1 tgt + 1" by (rule ft)
    show "\<forall>x\<in>set (backends r1). x \<noteq> src \<longrightarrow> x \<noteq> tgt \<longrightarrow> ?f2 x = ?f1 x" using co by simp
  qed
  have m2: "mset (backends ?rb) = mset (backends ?ra)" by (simp add: addConn_fields)
  have d2: "distinct (backends ?rb)"
  proof -
    have "distinct (backends ?ra)"
      using d1 by (simp add: removeConn_backends distinct_adjustList)
    then show ?thesis using m2 by (metis mset_eq_imp_distinct_iff)
  qed
  have s2: "set (backends ?rb) = set (backends ?ra)" using m2 by (metis set_mset_mset)
  have "sum ?f2 (set (backends ?rb)) = sum ?f2 (set (backends r1))"
  proof (cases "emptyUnhealthy ((bheap r1 src)\<lparr>connList := remove1 ce (connList (bheap r1 src))\<rparr>)")
    case True
    then have z: "?f2 src = 0" unfolding cs by (simp add: emptyUnhealthy_def)
    have "set (backends ?ra) = set (backends r1) - {src}"
      using True d1 by (simp add: removeConn_backends)
    then have "set (backends ?rb) = set (backends r1) - {src}" using s2 by simp
    moreover have "sum ?f2 (set (backends r1)) = ?f2 src + sum ?f2 (set (backends r1) - {src})"
      using src by (intro sum.remove) simp_all
    ultimately show ?thesis using z by simp
  next
    case False
    then have "set (backends ?ra) = set (backends r1)"
      by (simp add: removeConn_backends set_adjustList)
    then show ?thesis using s2 by simp
  qed
  then have "snd (ConnCount ?rb) = snd (ConnCount r1)"
    using sh by (simp add: ConnCount_set[OF d1] ConnCount_set[OF d2])
  moreover have "snd (ConnCount ?r2) = snd (ConnCount ?rb)" by (simp add: ConnCount_def)
  ultimately have cc: "snd (ConnCount ?r2) = snd (ConnCount r1)" by simp
  have c2: "connList (bheap ?r2 src) = remove1 ce (connList (bheap r1 src))"
    "connList (bheap ?r2 tgt) = connList (bheap r1 tgt) @ [enext r1]"
    "eheap ?r2 (enext r1) = eheap r1 ce"
    using cs ct eh by simp_all
  have ph: "phase (wheap ?r2 ?w) = phaseRedirectEnd" "redirectingBackend (wheap ?r2 ?w) = None"
    by simp_all
  show ?thesis using o c2 ph cc by blast
qed

lemma redirect_fail:
  assumes b1: "base r1" and src: "src \<in> set (backends r1)" and tgt: "tgt \<in> set (backends r1)"
    and k: "getConnWrapper r1 c = Some ce"
    and keep: "\<not> emptyUnhealthy ((bheap r1 tgt)\<lparr>connScore := connScore (bheap r1 tgt) - 1\<rparr>)"
    and ne: "src \<noteq> tgt"
  shows "\<exists>r3. OnRedirectFail r1 (addr (bheap r1 src)) (addr (bheap r1 tgt)) c = Some r3
     \<and> bheap r3 = (bheap r1)(src := (bheap r1 src)\<lparr>connScore := connScore (bheap r1 src) + 1\<rparr>,
                             tgt := (bheap r1 tgt)\<lparr>connScore := connScore (bheap r1 tgt) - 1\<rparr>)
     \<and> phase (wheap r3 (eheap r1 ce)) = phaseRedirectFail
     \<and> redirectingBackend (wheap r3 (eheap r1 ce)) = None
     \<and> set (backends r3) = set (backends r1)
     \<and> scoreMethod r3 = scoreMethod r1"
proof -
  let ?w = "eheap r1 ce"
  let ?ra = "adjustBackendList (updBackend src (\<lambda>b. b\<lparr>connScore := connScore b + 1\<rparr>) r1) src False"
  let ?ru = "updBackend tgt (\<lambda>b. b\<lparr>connScore := connScore b - 1\<rparr>) ?ra"
  let ?rb = "adjustBackendList ?ru tgt True"
  let ?r3 = "updConn ?w (\<lambda>x. x\<lparr>redirectingBackend := None\<rparr>)
              (updConn ?w (\<lambda>x. x\<lparr>phase := phaseRedirectFail\<rparr>) ?rb)"
  have l1: "lookupBackend r1 (addr (bheap r1 src)) True = Some src"
    using b1 src by (rule lookupBackend_distinct)
  have l2: "lookupBackend r1 (addr (bheap r1 tgt)) False = Some tgt"
    using b1 tgt by (rule lookupBackend_distinct)
  have o: "OnRedirectFail r1 (addr (bheap r1 src)) (addr (bheap r1 tgt)) c = Some ?r3"
    unfolding OnRedirectFail_def by (rule onRedirectFinished_found(2)[OF l1 l2 k])
  have hb: "bheap ?r3 = (bheap r1)(src := (bheap r1 src)\<lparr>connScore := connScore (bheap r1 src) + 1\<rparr>,
                             tgt := (bheap r1 tgt)\<lparr>connScore := connScore (bheap r1 tgt) - 1\<rparr>)"
    using ne by simp
  have "\<not> emptyUnhealthy (bheap ?ru tgt)" using keep ne by simp
  then have "set (backends ?rb) = set (backends ?ra)"
    by (simp add: backends_adjust set_adjustList)
  then have st: "set (backends ?r3) = set (backends r1)" by simp
  have ph: "phase (wheap ?r3 ?w) = phaseRedirectFail" "redirectingBackend (wheap ?r3 ?w) = None"
    by simp_all
  have sm: "scoreMethod ?r3 = scoreMethod r1" by simp
  show ?thesis using o hb st ph sm by blast
qed

lemma belowMaxScoreRatio_same: "0 \<le> x \<Longrightarrow> belowMaxScoreRatio x x"
  by (simp add: belowMaxScoreRatio_def)

lemma rebalanceStep_two_backends:
  assumes "rebalanceStep belowMaxScoreRatio minInterval curTime r = Some r1"
    and "findBusiest (bheap r) (backends r) = Some src" and "0 \<le> score r src"
  shows "src \<noteq> last (backends r)"
proof
  assume e: "src = last (backends r)"
  from assms(1) obtain b ce where b: "findBusiest (bheap r) (backends r) = Some b"
    "\<not> belowMaxScoreRatio (score r b) (score r (last (backends r)))"
    by (rule rebalanceStep_Some)
  then have "\<not> belowMaxScoreRatio (score r src) (score r src)" using assms(2) e by simp
  then show False using assms(3) belowMaxScoreRatio_same by blast
qed

lemma scoreMethod_removeConn [simp]: "scoreMethod (removeConn r be ce) = scoreMethod r"
  by (simp add: removeConn_def)

lemma scoreMethod_addConn [simp]: "scoreMethod (addConn r be w) = scoreMethod r"
  by (simp add: addConn_alt setConnWrapper_def)

lemma scoreMethod_ensureBackend [simp]: "scoreMethod (fst (ensureBackend r a fw)) = scoreMethod r"
  by (simp add: ensureBackend_def Let_def split: option.splits)

lemma scoreMethod_routeOnce [simp]: "scoreMethod (fst (routeOnce r excluded)) = scoreMethod r"
  by (simp add: routeOnce_def Refresh_def split: option.splits)

lemma scoreMethod_onCreateConn [simp]: "scoreMethod (onCreateConn r a c succeed) = scoreMethod r"
  by (simp add: onCreateConn_def Let_def split_beta)

lemma scoreMethod_healthStep [simp]: "scoreMethod (fst (healthStep a h rs)) = scoreMethod (fst rs)"
  by (simp add: healthStep_def Let_def split: option.splits)

lemma scoreMethod_healthLoop [simp]: "scoreMethod (fst (healthLoop m order rs)) = scoreMethod (fst rs)"
  by (induction order arbitrary: rs) (simp_all split: option.splits)

lemma scoreMethod_updateBackendHealth [simp]:
  "scoreMethod (updateBackendHealth r hr order) = scoreMethod r"
  by (simp add: updateBackendHealth_def Let_def)

lemma scoreMethod_rebalance [simp]:
  "scoreMethod (rebalance lowRatio minInterval curTime maxNum r) = scoreMethod r"
proof (induction maxNum arbitrary: r)
  case 0
  show ?case by simp
next
  case (Suc n)
  show ?case
  proof (cases "rebalanceStep lowRatio minInterval curTime r")
    case None
    then show ?thesis by simp
  next
    case (Some r')
    from Some obtain b ce where "r' = redirectTo r b (last (backends r)) ce curTime"
      by (rule rebalanceStep_Some)
    then have "scoreMethod r' = scoreMethod r" by (simp add: redirectTo_def Let_def)
    then show ?thesis using Some Suc.IH by simp
  qed
qed

section \<open>The claims\<close>

text \<open>
  C1: after every public operation the backend list is in descending order of scores,
  whatever the method score() computes from a backend, and so for
  score(b) = len(b.connList) + b.connScore; adjustBackendList never moves a backend past
  another backend of equal score (nor changes the order of the other backends).
\<close>

theorem backends_sorted_stable:
  "(reachable r \<longrightarrow> sorted_wrt (\<lambda>x y. score r y \<le> score r x) (backends r)) \<and>
   (reachable r \<and> scoreMethod r = specScore \<longrightarrow>
      sorted_wrt (\<lambda>x y. int (length (connList (bheap r y))) + connScore (bheap r y)
                        \<le> int (length (connList (bheap r x))) + connScore (bheap r x)) (backends r)) \<and>
   (distinct (backends q) \<and> x \<noteq> be \<and> score q x = score q be
      \<and> be \<in> set (backends (adjustBackendList q be removeEmpty)) \<longrightarrow>
    (before (backends (adjustBackendList q be removeEmpty)) x be \<longleftrightarrow> before (backends q) x be)
      \<and> remove1 be (backends (adjustBackendList q be removeEmpty)) = remove1 be (backends q))"
proof (intro conjI impI)
  assume "reachable r"
  then have "routerInv r" by (rule reachable_inv)
  then show "sorted_wrt (\<lambda>x y. score r y \<le> score r x) (backends r)"
    by (simp add: routerInv_def invX_def descending_def)
next
  assume a: "reachable r \<and> scoreMethod r = specScore"
  then have "routerInv r" using reachable_inv by blast
  then have "sorted_wrt (\<lambda>x y. score r y \<le> score r x) (backends r)"
    by (simp add: routerInv_def invX_def descending_def)
  then show "sorted_wrt (\<lambda>x y. int (length (connList (bheap r y))) + connScore (bheap r y)
                        \<le> int (length (connList (bheap r x))) + connScore (bheap r x)) (backends r)"
    using a by (simp add: score_def specScore_def)
next
  assume a: "distinct (backends q) \<and> x \<noteq> be \<and> score q x = score q be
      \<and> be \<in> set (backends (adjustBackendList q be removeEmpty))"
  have "\<not> (removeEmpty \<and> emptyUnhealthy (bheap q be))"
  proof
    assume "removeEmpty \<and> emptyUnhealthy (bheap q be)"
    then have "backends (adjustBackendList q be removeEmpty) = remove1 be (backends q)"
      by (simp add: backends_adjust)
    then show False using a by auto
  qed
  then have bk: "backends (adjustBackendList q be removeEmpty) = adjustList (score q) be (backends q)"
    by (auto simp: backends_adjust)
  show "before (backends (adjustBackendList q be removeEmpty)) x be \<longleftrightarrow> before (backends q) x be"
    unfolding bk using a by (intro adjustList_stable) auto
  show "remove1 be (backends (adjustBackendList q be removeEmpty)) = remove1 be (backends q)"
    unfolding bk using a by (intro remove1_adjustList) auto
qed

theorem backends_sorted_stable_witness:
  "reachable oneConn \<and> backends oneConn = [1, 0] \<and> map (score oneConn) (backends oneConn) = [2, 0]
   \<and> sorted_wrt (\<lambda>x y. score oneConn y \<le> score oneConn x) (backends oneConn)
   \<and> scoreMethod oneConn = specScore
   \<and> sorted_wrt (\<lambda>x y. int (length (connList (bheap oneConn y))) + connScore (bheap oneConn y)
                      \<le> int (length (connList (bheap oneConn x))) + connScore (bheap oneConn x))
         (backends oneConn)
   \<and> backends (updBackend 0 (\<lambda>b. b\<lparr>connScore := 2\<rparr>) oneConn) = [1, 0]
   \<and> score (updBackend 0 (\<lambda>b. b\<lparr>connScore := 2\<rparr>) oneConn) 1 = score (updBackend 0 (\<lambda>b. b\<lparr>connScore := 2\<rparr>) oneConn) 0
   \<and> backends (adjustBackendList (updBackend 0 (\<lambda>b. b\<lparr>connScore := 2\<rparr>) oneConn) 0 False) = [1, 0]
   \<and> before (backends (adjustBackendList (updBackend 0 (\<lambda>b. b\<lparr>connScore := 2\<rparr>) oneConn) 0 False)) 1 0"
proof -
  let ?q = "updBackend 0 (\<lambda>b. b\<lparr>connScore := 2\<rparr>) oneConn"
  have r: "reachable oneConn"
    unfolding oneConn_def twoBackends_def
    by (intro reachable.reach_onCreateConn reachable.reach_routeOnce
          reachable.reach_updateBackendHealth reachable.reach_new)
  have e1: "backends oneConn = [1, 0]" by code_simp
  have e2: "map (score oneConn) (backends oneConn) = [2, 0]" by code_simp
  have e3: "backends ?q = [1, 0]" by code_simp
  have e4: "score ?q 1 = score ?q 0" by code_simp
  have e5: "backends (adjustBackendList ?q 0 False) = [1, 0]" by code_simp
  have e6: "before (backends ?q) 1 0" unfolding e3 by (simp add: before_def)
  have h: "distinct (backends ?q) \<and> (1::nat) \<noteq> 0 \<and> score ?q 1 = score ?q 0
      \<and> 0 \<in> set (backends (adjustBackendList ?q 0 False))"
    unfolding e5 e3 using e4 by simp
  have sm: "scoreMethod oneConn = specScore"
    by (simp add: oneConn_def twoBackends_def NewScoreBasedRouter_def)
  from backends_sorted_stable[of oneConn ?q 1 0 False] r h e6 sm
  have "sorted_wrt (\<lambda>x y. score oneConn y \<le> score oneConn x) (backends oneConn)"
    and "sorted_wrt (\<lambda>x y. int (length (connList (bheap oneConn y))) + connScore (bheap oneConn y)
                      \<le> int (length (connList (bheap oneConn x))) + connScore (bheap oneConn x))
         (backends oneConn)"
    and "before (backends (adjustBackendList ?q 0 False)) 1 0"
    by blast+
  then show ?thesis using r e1 e2 e3 e4 e5 sm by (intro conjI)
qed

text \<open>
  C2: with no latched observe error, routeOnce returns the first backend, from the tail
  of the list to its head, that is Healthy and not excluded; it adds one to that backend's
  connScore and re-sorts the list.
\<close>

theorem routeOnce_first_qualifying:
  assumes "observeError r = None"
  shows "case spec_firstQualifying r excluded of
           None \<Rightarrow> snd (routeOnce r excluded) = Inl ErrNoBackend
         | Some be \<Rightarrow>
             routeOnce r excluded =
               (adjustBackendList (updBackend be (\<lambda>b. b\<lparr>connScore := connScore b + 1\<rparr>) r) be False, Inr be)
             \<and> (\<exists>pre post. backends r = pre @ be # post \<and> (\<forall>x\<in>set post. \<not> qualifies r excluded x))
             \<and> Status (health (bheap r be)) = StatusHealthy \<and> addr (bheap r be) \<notin> set excluded
             \<and> connScore (bheap (fst (routeOnce r excluded)) be) = connScore (bheap r be) + 1
             \<and> (distinct (backends r) \<and> sorted_wrt (\<lambda>x y. score r y \<le> score r x) (backends r) \<longrightarrow>
                  sorted_wrt (\<lambda>x y. score (fst (routeOnce r excluded)) y \<le> score (fst (routeOnce r excluded)) x)
                    (backends (fst (routeOnce r excluded))))"
proof (cases "spec_firstQualifying r excluded")
  case None
  then show ?thesis using assms by (simp add: routeOnce_None)
next
  case (Some be)
  note eq = routeOnce_Some[OF assms Some]
  have "\<exists>pre post. backends r = pre @ be # post \<and> qualifies r excluded be \<and> (\<forall>x\<in>set post. \<not> qualifies r excluded x)"
    using Some unfolding spec_firstQualifying_def by (rule find_rev_Some)
  moreover have "distinct (backends r) \<and> sorted_wrt (\<lambda>x y. score r y \<le> score r x) (backends r) \<longrightarrow>
                  sorted_wrt (\<lambda>x y. score (fst (routeOnce r excluded)) y \<le> score (fst (routeOnce r excluded)) x)
                    (backends (fst (routeOnce r excluded)))"
    unfolding eq fst_conv using incr_adjust_descending[of r be "\<lambda>b. b\<lparr>connScore := connScore b + 1\<rparr>"]
    by (simp add: descending_def)
  moreover have "connScore (bheap (fst (routeOnce r excluded)) be) = connScore (bheap r be) + 1"
    unfolding eq by simp
  ultimately show ?thesis using Some eq by (auto simp: qualifies_def)
qed

theorem routeOnce_first_qualifying_witness:
  "observeError twoBackends = None \<and> backends twoBackends = [0, 1]
   \<and> spec_firstQualifying twoBackends [''b''] = Some 0
   \<and> snd (routeOnce twoBackends [''b'']) = Inr 0
   \<and> connScore (bheap (fst (routeOnce twoBackends [''b''])) 0) = connScore (bheap twoBackends 0) + 1
   \<and> Status (health (bheap twoBackends 0)) = StatusHealthy \<and> addr (bheap twoBackends 0) \<notin> set [''b'']
   \<and> distinct (backends twoBackends)
   \<and> sorted_wrt (\<lambda>x y. score twoBackends y \<le> score twoBackends x) (backends twoBackends)
   \<and> sorted_wrt (\<lambda>x y. score (fst (routeOnce twoBackends [''b''])) y \<le> score (fst (routeOnce twoBackends [''b''])) x)
         (backends (fst (routeOnce twoBackends [''b''])))"
proof -
  have h: "observeError twoBackends = None" by code_simp
  have e1: "backends twoBackends = [0, 1]" by code_simp
  have e2: "spec_firstQualifying twoBackends [''b''] = Some 0" by code_simp
  have e3: "distinct (backends twoBackends)" unfolding e1 by simp
  have e4: "sorted_wrt (\<lambda>x y. score twoBackends y \<le> score twoBackends x) (backends twoBackends)"
    by code_simp
  have e5: "snd (routeOnce twoBackends [''b'']) = Inr 0" by code_simp
  have e6: "Status (health (bheap twoBackends 0)) = StatusHealthy" by code_simp
  have e7: "addr (bheap twoBackends 0) \<notin> set [''b'']" by code_simp
  note t = routeOnce_first_qualifying[OF h, of "[''b'']", unfolded e2 option.case]
  from t have "connScore (bheap (fst (routeOnce twoBackends [''b''])) 0) = connScore (bheap twoBackends 0) + 1"
    by (elim conjE)
  moreover from t e3 e4
  have "sorted_wrt (\<lambda>x y. score (fst (routeOnce twoBackends [''b''])) y \<le> score (fst (routeOnce twoBackends [''b''])) x)
         (backends (fst (routeOnce twoBackends [''b''])))"
    by (elim conjE impE) (rule conjI)
  ultimately show ?thesis using h e1 e2 e3 e4 e5 e6 e7 by (intro conjI)
qed

text \<open>
  C3: when a round of rebalance has told a connection to move from a source backend to
  another backend, the target (one taken from the source's connScore, one added to the
  target's), OnRedirectSucceed moves the connection's element from the source's connList
  to the target's, sets the phase to RedirectEnd and leaves ConnCount as it is;
  OnRedirectFail instead adds one to the source's connScore, takes one from the target's,
  sets the phase to RedirectFail and gives every backend the score it had before the round.
  Source and target are two backends: with the ratio of the spec they are whenever the
  score of the source is not negative (lemma \<open>rebalanceStep_two_backends\<close>).
\<close>

theorem redirect_roundtrip:
  assumes "reachable r"
    and "rebalanceStep lowRatio minInterval curTime r = Some r1"
    and "findBusiest (bheap r) (backends r) = Some src"
    and "tgt = last (backends r)"
    and "pickConn r minInterval curTime (connList (bheap r src)) = Some ce"
    and "getConnWrapper r (conn (wheap r (eheap r ce))) = Some ce"
    and "src \<noteq> tgt"
  shows "connScore (bheap r1 src) = connScore (bheap r src) - 1
     \<and> connScore (bheap r1 tgt) = connScore (bheap r tgt) + 1
     \<and> redirected r1 = (conn (wheap r (eheap r ce)), tgt) # redirected r
     \<and> phase (wheap r1 (eheap r ce)) = phaseRedirectNotify
     \<and> ce \<in> set (connList (bheap r1 src))
     \<and> (\<exists>r2. OnRedirectSucceed r1 (addr (bheap r1 src)) (addr (bheap r1 tgt)) (conn (wheap r (eheap r ce))) = Some r2
           \<and> connList (bheap r2 src) = remove1 ce (connList (bheap r1 src))
           \<and> connList (bheap r2 tgt) = connList (bheap r1 tgt) @ [enext r1]
           \<and> eheap r2 (enext r1) = eheap r ce
           \<and> phase (wheap r2 (eheap r ce)) = phaseRedirectEnd
           \<and> redirectingBackend (wheap r2 (eheap r ce)) = None
           \<and> snd (ConnCount r2) = snd (ConnCount r1))
     \<and> (\<exists>r3. OnRedirectFail r1 (addr (bheap r1 src)) (addr (bheap r1 tgt)) (conn (wheap r (eheap r ce))) = Some r3
           \<and> connScore (bheap r3 src) = connScore (bheap r1 src) + 1
           \<and> connScore (bheap r3 tgt) = connScore (bheap r1 tgt) - 1
           \<and> phase (wheap r3 (eheap r ce)) = phaseRedirectFail
           \<and> redirectingBackend (wheap r3 (eheap r ce)) = None
           \<and> (\<forall>x. score r3 x = score r x)
           \<and> set (backends r3) = set (backends r))"
proof -
  let ?w = "eheap r ce"
  let ?c = "conn (wheap r ?w)"
  from assms(2) obtain b' ce' where
    "findBusiest (bheap r) (backends r) = Some b'"
    "pickConn r minInterval curTime (connList (bheap r b')) = Some ce'"
    "r1 = redirectTo r b' (last (backends r)) ce' curTime"
    by (rule rebalanceStep_Some)
  then have r1: "r1 = redirectTo r src tgt ce curTime" using assms(3,4,5) by simp
  have "reachable (rebalance lowRatio minInterval curTime (Suc 0) r)"
    using assms(1) by (rule reachable.reach_rebalance)
  then have re1: "reachable r1" using rebalance_one[OF assms(2)] by simp
  have i: "routerInv r" using assms(1) by (rule reachable_inv)
  have b1: "base r1" using re1 reachable_inv routerInv_base by blast
  note fb = findBusiest_Some[OF assms(3)]
  have s0: "src \<in> set (backends r)" and nonempty: "connList (bheap r src) \<noteq> []" using fb by simp_all
  have "backends r \<noteq> []" using s0 by auto
  then have t0: "tgt \<in> set (backends r)" using assms(4) by simp
  have st: "set (backends r1) = set (backends r)" unfolding r1 using nonempty by (rule redirectTo_set)
  have hp: "bheap r1 = (bheap r)(src := (bheap r src)\<lparr>connScore := connScore (bheap r src) - 1\<rparr>,
                                tgt := (bheap r tgt)\<lparr>connScore := connScore (bheap r tgt) + 1\<rparr>)"
    unfolding r1 using assms(7) by (simp add: redirectTo_fields Let_def)
  have c0: "ce \<in> set (connList (bheap r src))" using assms(5) by (rule pickConn_Some)
  have c1: "ce \<in> set (connList (bheap r1 src))" using c0 assms(7) by (simp add: hp)
  have k1: "getConnWrapper r1 ?c = Some ce"
    using assms(6) by (simp add: getConnWrapper_def r1 redirectTo_fields)
  have e1: "eheap r1 ce = ?w" by (simp add: r1 redirectTo_fields)
  have s1: "src \<in> set (backends r1)" and t1: "tgt \<in> set (backends r1)" using s0 t0 st by simp_all
  have p1: "connScore (bheap r1 src) = connScore (bheap r src) - 1"
    "connScore (bheap r1 tgt) = connScore (bheap r tgt) + 1"
    using assms(7) by (simp_all add: hp)
  have p2: "redirected r1 = (?c, tgt) # redirected r" by (simp add: r1 redirectTo_fields)
  have p3: "phase (wheap r1 ?w) = phaseRedirectNotify" by (simp add: r1 redirectTo_fields)
  note su = redirect_succeed[OF b1 s1 t1 assms(7) c1 k1, unfolded e1]
  have "\<not> emptyUnhealthy (bheap r tgt)" using i t0 by (auto simp: routerInv_def invX_def)
  then have keep: "\<not> emptyUnhealthy ((bheap r1 tgt)\<lparr>connScore := connScore (bheap r1 tgt) - 1\<rparr>)"
    by (simp add: hp)
  from redirect_fail[OF b1 s1 t1 k1 keep assms(7), unfolded e1]
  obtain r3 where r3: "OnRedirectFail r1 (addr (bheap r1 src)) (addr (bheap r1 tgt)) ?c = Some r3"
    "bheap r3 = (bheap r1)(src := (bheap r1 src)\<lparr>connScore := connScore (bheap r1 src) + 1\<rparr>,
                             tgt := (bheap r1 tgt)\<lparr>connScore := connScore (bheap r1 tgt) - 1\<rparr>)"
    "phase (wheap r3 ?w) = phaseRedirectFail" "redirectingBackend (wheap r3 ?w) = None"
    "set (backends r3) = set (backends r1)" "scoreMethod r3 = scoreMethod r1"
    by blast
  have f1: "connScore (bheap r3 src) = connScore (bheap r1 src) + 1"
    "connScore (bheap r3 tgt) = connScore (bheap r1 tgt) - 1"
    using assms(7) by (simp_all add: r3(2))
  have "bheap r3 = bheap r"
    unfolding r3(2) hp using assms(7) by (auto simp: fun_eq_iff)
  moreover have "scoreMethod r3 = scoreMethod r" using r3(6) by (simp add: r1 redirectTo_fields)
  ultimately have f2: "\<forall>x. score r3 x = score r x" by (simp add: score_def)
  have fa: "\<exists>r3. OnRedirectFail r1 (addr (bheap r1 src)) (addr (bheap r1 tgt)) ?c = Some r3
           \<and> connScore (bheap r3 src) = connScore (bheap r1 src) + 1
           \<and> connScore (bheap r3 tgt) = connScore (bheap r1 tgt) - 1
           \<and> phase (wheap r3 ?w) = phaseRedirectFail
           \<and> redirectingBackend (wheap r3 ?w) = None
           \<and> (\<forall>x. score r3 x = score r x)
           \<and> set (backends r3) = set (backends r)"
    using r3(1,3,4,5) f1 f2 st by blast
  show ?thesis using p1 p2 p3 c1 su fa by (intro conjI)
qed


theorem redirect_roundtrip_witness:
  "reachable threeBackends
   \<and> findBusiest (bheap threeBackends) (backends threeBackends) = Some 1
   \<and> last (backends threeBackends) = 2
   \<and> pickConn threeBackends 3 10 (connList (bheap threeBackends 1)) = Some 0
   \<and> conn (wheap threeBackends (eheap threeBackends 0)) = 7
   \<and> getConnWrapper threeBackends 7 = Some 0
   \<and> rebalanceStep belowMaxScoreRatio 3 10 threeBackends = Some (redirectTo threeBackends 1 2 0 10)
   \<and> addr (bheap (redirectTo threeBackends 1 2 0 10) 1) = ''b''
   \<and> addr (bheap (redirectTo threeBackends 1 2 0 10) 2) = ''c''
   \<and> connList (bheap (redirectTo threeBackends 1 2 0 10) 1) = [0]
   \<and> connList (bheap (redirectTo threeBackends 1 2 0 10) 2) = []
   \<and> enext (redirectTo threeBackends 1 2 0 10) = 1
   \<and> snd (ConnCount (redirectTo threeBackends 1 2 0 10)) = 1
   \<and> (\<exists>r2. OnRedirectSucceed (redirectTo threeBackends 1 2 0 10) ''b'' ''c'' 7 = Some r2
         \<and> connList (bheap r2 1) = [] \<and> connList (bheap r2 2) = [1]
         \<and> phase (wheap r2 (eheap threeBackends 0)) = phaseRedirectEnd
         \<and> snd (ConnCount r2) = 1)
   \<and> (\<exists>r3. OnRedirectFail (redirectTo threeBackends 1 2 0 10) ''b'' ''c'' 7 = Some r3
         \<and> phase (wheap r3 (eheap threeBackends 0)) = phaseRedirectFail
         \<and> score r3 1 = score threeBackends 1 \<and> score r3 2 = score threeBackends 2)"
proof -
  let ?r1 = "redirectTo threeBackends 1 2 0 10"
  have r: "reachable threeBackends"
    unfolding threeBackends_def oneConn_def twoBackends_def
    by (intro reachable.reach_onCreateConn reachable.reach_routeOnce
          reachable.reach_updateBackendHealth reachable.reach_new)
  have e1: "findBusiest (bheap threeBackends) (backends threeBackends) = Some 1" by code_simp
  have e2: "last (backends threeBackends) = 2" by code_simp
  have e3: "pickConn threeBackends 3 10 (connList (bheap threeBackends 1)) = Some 0" by code_simp
  have e4: "conn (wheap threeBackends (eheap threeBackends 0)) = 7" by code_simp
  have e5: "getConnWrapper threeBackends 7 = Some 0" by code_simp
  have e6: "\<not> belowMaxScoreRatio (score threeBackends 1) (score threeBackends 2)" by code_simp
  have st: "rebalanceStep belowMaxScoreRatio 3 10 threeBackends = Some ?r1"
    using e1 e2 e3 e6 by (simp add: rebalanceStep_def)
  have a1: "addr (bheap ?r1 1) = ''b''" by code_simp
  have a2: "addr (bheap ?r1 2) = ''c''" by code_simp
  have l1: "connList (bheap ?r1 1) = [0]" by code_simp
  have l2: "connList (bheap ?r1 2) = []" by code_simp
  have n1: "enext ?r1 = 1" by code_simp
  have cc: "snd (ConnCount ?r1) = 1" by code_simp
  have h6: "getConnWrapper threeBackends (conn (wheap threeBackends (eheap threeBackends 0))) = Some 0"
    unfolding e4 by (rule e5)
  have h7: "(1::nat) \<noteq> 2" by simp
  note t = redirect_roundtrip[OF r st e1 e2[symmetric] e3 h6 h7, unfolded e4 a1 a2 l1 l2 n1 cc]
  from t obtain r2 where r2: "OnRedirectSucceed ?r1 ''b'' ''c'' 7 = Some r2"
    "connList (bheap r2 1) = remove1 0 [0]" "connList (bheap r2 2) = [] @ [1]"
    "phase (wheap r2 (eheap threeBackends 0)) = phaseRedirectEnd" "snd (ConnCount r2) = 1"
    by blast
  from t obtain r3 where r3: "OnRedirectFail ?r1 ''b'' ''c'' 7 = Some r3"
    "phase (wheap r3 (eheap threeBackends 0)) = phaseRedirectFail"
    "\<forall>x. score r3 x = score threeBackends x"
    by blast
  have s: "\<exists>r2. OnRedirectSucceed ?r1 ''b'' ''c'' 7 = Some r2
         \<and> connList (bheap r2 1) = [] \<and> connList (bheap r2 2) = [1]
         \<and> phase (wheap r2 (eheap threeBackends 0)) = phaseRedirectEnd
         \<and> snd (ConnCount r2) = 1"
    using r2 by auto
  have f: "\<exists>r3. OnRedirectFail ?r1 ''b'' ''c'' 7 = Some r3
         \<and> phase (wheap r3 (eheap threeBackends 0)) = phaseRedirectFail
         \<and> score r3 1 = score threeBackends 1 \<and> score r3 2 = score threeBackends 2"
    using r3 by auto
  show ?thesis using r e1 e2 e3 e4 e5 st a1 a2 l1 l2 n1 cc s f by (intro conjI)
qed

text \<open>
  C4: after every public operation, no backend of the list is at once CannotConnect,
  without connections and with a connScore of zero or less.
\<close>

theorem no_empty_unhealthy_backend:
  "reachable r \<Longrightarrow>
   \<forall>b\<in>set (backends r). \<not> (Status (health (bheap r b)) = StatusCannotConnect
      \<and> connList (bheap r b) = [] \<and> connScore (bheap r b) \<le> 0)"
proof -
  assume "reachable r"
  then have "routerInv r" by (rule reachable_inv)
  then show ?thesis by (auto simp: routerInv_def invX_def emptyUnhealthy_def)
qed

theorem no_empty_unhealthy_backend_witness:
  "reachable scaleIn \<and> backends scaleIn = [1]
   \<and> Status (health (bheap scaleIn 1)) = StatusCannotConnect \<and> connList (bheap scaleIn 1) = [0]
   \<and> \<not> (Status (health (bheap scaleIn 1)) = StatusCannotConnect
      \<and> connList (bheap scaleIn 1) = [] \<and> connScore (bheap scaleIn 1) \<le> 0)"
proof -
  have r: "reachable scaleIn"
    unfolding scaleIn_def oneConn_def twoBackends_def
    by (intro reachable.reach_onCreateConn reachable.reach_routeOnce
          reachable.reach_updateBackendHealth reachable.reach_new)
  have e1: "backends scaleIn = [1]" by code_simp
  have e2: "Status (health (bheap scaleIn 1)) = StatusCannotConnect" by code_simp
  have e3: "connList (bheap scaleIn 1) = [0]" by code_simp
  have "1 \<in> set (backends scaleIn)" unfolding e1 by simp
  with no_empty_unhealthy_backend[OF r]
  have "\<not> (Status (health (bheap scaleIn 1)) = StatusCannotConnect
      \<and> connList (bheap scaleIn 1) = [] \<and> connScore (bheap scaleIn 1) \<le> 0)"
    by blast
  then show ?thesis using r e1 e2 e3 by blast
qed

text \<open>
  C5: for a connection attached to a backend of the list, OnConnClosed returns nil and
  removes the connection's element from that backend's connList; when a redirect is in
  flight (redirectingBackend is not nil) it takes one from the connScore of the redirect
  target, not of the owner, and clears redirectingBackend; otherwise it takes one from the
  owner's connScore.
\<close>

theorem OnConnClosed_releases_score:
  assumes "reachable r" and "be \<in> set (backends r)" and "ce \<in> set (connList (bheap r be))"
    and "getConnWrapper r c = Some ce"
  shows "\<exists>r'. OnConnClosed r (addr (bheap r be)) c = Some r'
     \<and> connList (bheap r' be) = remove1 ce (connList (bheap r be))
     \<and> (case redirectingBackend (wheap r (eheap r ce)) of
          Some rb \<Rightarrow>
            connScore (bheap r' rb) = connScore (bheap r rb) - 1
            \<and> (rb \<noteq> be \<longrightarrow> connScore (bheap r' be) = connScore (bheap r be))
            \<and> redirectingBackend (wheap r' (eheap r ce)) = None
        | None \<Rightarrow> connScore (bheap r' be) = connScore (bheap r be) - 1)"
proof -
  have i: "routerInv r" using assms(1) by (rule reachable_inv)
  have "lookupBackend r (addr (bheap r be)) True = Some be"
    using i assms(2) by (intro lookupBackend_distinct) (simp_all add: routerInv_def invX_def)
  then have e: "ensureBackend r (addr (bheap r be)) True = (r, be)" by (rule ensureBackend_found)
  let ?w = "eheap r ce"
  let ?rel = "releaseScore r be ?w"
  let ?r' = "removeConn ?rel be ce"
  have o: "OnConnClosed r (addr (bheap r be)) c = Some ?r'"
    using e assms(4) by (simp add: OnConnClosed_alt)
  have l: "connList (bheap ?r' be) = remove1 ce (connList (bheap r be))"
    by (simp add: removeConn_bheap releaseScore_fields)
  have s: "case redirectingBackend (wheap r ?w) of
          Some rb \<Rightarrow>
            connScore (bheap ?r' rb) = connScore (bheap r rb) - 1
            \<and> (rb \<noteq> be \<longrightarrow> connScore (bheap ?r' be) = connScore (bheap r be))
            \<and> redirectingBackend (wheap ?r' ?w) = None
        | None \<Rightarrow> connScore (bheap ?r' be) = connScore (bheap r be) - 1"
    by (auto simp: removeConn_bheap removeConn_other releaseScore_bheap releaseScore_wheap split: option.splits)
  show ?thesis using o l s by blast
qed

theorem OnConnClosed_releases_score_witness:
  "reachable redirecting \<and> backends redirecting = [1, 2] \<and> connList (bheap redirecting 1) = [0]
   \<and> getConnWrapper redirecting 7 = Some 0 \<and> addr (bheap redirecting 1) = ''b''
   \<and> phase (wheap redirecting (eheap redirecting 0)) = phaseRedirectNotify
   \<and> redirectingBackend (wheap redirecting (eheap redirecting 0)) = Some 2
   \<and> connScore (bheap redirecting 2) = 1 \<and> connScore (bheap redirecting 1) = 0
   \<and> (\<exists>r'. OnConnClosed redirecting ''b'' 7 = Some r'
         \<and> connList (bheap r' 1) = []
         \<and> connScore (bheap r' 2) = 0 \<and> connScore (bheap r' 1) = 0
         \<and> redirectingBackend (wheap r' (eheap redirecting 0)) = None)"
proof -
  have r: "reachable redirecting"
    unfolding redirecting_def threeBackends_def oneConn_def twoBackends_def
    by (intro reachable.reach_rebalance reachable.reach_onCreateConn reachable.reach_routeOnce
          reachable.reach_updateBackendHealth reachable.reach_new)
  have e1: "backends redirecting = [1, 2]" by code_simp
  have e2: "connList (bheap redirecting 1) = [0]" by code_simp
  have e3: "getConnWrapper redirecting 7 = Some 0" by code_simp
  have e4: "addr (bheap redirecting 1) = ''b''" by code_simp
  have e5: "phase (wheap redirecting (eheap redirecting 0)) = phaseRedirectNotify" by code_simp
  have e6: "redirectingBackend (wheap redirecting (eheap redirecting 0)) = Some 2" by code_simp
  have e7: "connScore (bheap redirecting 2) = 1" by code_simp
  have e8: "connScore (bheap redirecting 1) = 0" by code_simp
  have h2: "1 \<in> set (backends redirecting)" unfolding e1 by simp
  have h3: "0 \<in> set (connList (bheap redirecting 1))" unfolding e2 by simp
  note t = OnConnClosed_releases_score[OF r h2 h3 e3, unfolded e4 e6 e2 option.case e7 e8]
  from t obtain r' where r': "OnConnClosed redirecting ''b'' 7 = Some r'"
    "connList (bheap r' 1) = remove1 0 [0]" "connScore (bheap r' 2) = 1 - 1"
    "2 \<noteq> (1::nat) \<longrightarrow> connScore (bheap r' 1) = 0"
    "redirectingBackend (wheap r' (eheap redirecting 0)) = None"
    by blast
  have "\<exists>r'. OnConnClosed redirecting ''b'' 7 = Some r'
         \<and> connList (bheap r' 1) = []
         \<and> connScore (bheap r' 2) = 0 \<and> connScore (bheap r' 1) = 0
         \<and> redirectingBackend (wheap r' (eheap redirecting 0)) = None"
    using r' by auto
  then show ?thesis using r e1 e2 e3 e4 e5 e6 e7 e8 by (intro conjI)
qed

text \<open>
  C6, as the code has it: when a snapshot without error is applied, an address of the
  snapshot that is not registered gets a new wrapper (health of the entry, connScore 0,
  no connection) if and only if the status of its entry is not CannotConnect.
\<close>

theorem updateBackendHealth_unknown_address:
  assumes "reachable r" and "Error hr = None" and "map_of (Backends hr) a = Some h"
    and "lookupBackend r a True = None"
    and "visits order (addRemoved (bheap r) (backends r) (Backends hr))"
  shows "(lookupBackend (updateBackendHealth r hr order) a True \<noteq> None
            \<longleftrightarrow> Status h \<noteq> StatusCannotConnect)
     \<and> (Status h \<noteq> StatusCannotConnect \<longrightarrow>
          (\<exists>be. lookupBackend (updateBackendHealth r hr order) a True = Some be
             \<and> bheap (updateBackendHealth r hr order) be
                  = \<lparr>addr = a, health = h, connScore = 0, connList = []\<rparr>))"
proof -
  let ?m = "addRemoved (bheap r) (backends r) (Backends hr)"
  let ?r0 = "r\<lparr>observeError := None\<rparr>"
  let ?r' = "updateBackendHealth r hr order"
  have i: "routerInv r" using assms(1) by (rule reachable_inv)
  have i0: "routerInv ?r0" using i by (rule inv_same) simp_all
  have g0: "registered ?r0 a = {}" using assms(4) by (simp add: registered_None registered_def)
  have ma: "map_of ?m a = Some h" using assms(3) by (rule map_of_addRemoved)
  then have "(a, h) \<in> set ?m" by (rule map_of_SomeD)
  then have "a \<in> fst ` set ?m" by force
  then have "a \<in> set order" using assms(5) by (simp add: visits_def)
  then obtain pre post where sp: "order = pre @ a # post" by (auto simp: in_set_conv_decomp)
  have "distinct order" using assms(5) by (simp add: visits_def)
  then have np: "a \<notin> set pre" "a \<notin> set post" using sp by auto
  let ?rs1 = "healthLoop ?m pre (?r0, [])"
  let ?rs2 = "healthStep a h ?rs1"
  let ?rs3 = "healthLoop ?m post ?rs2"
  have lp: "healthLoop ?m order (?r0, []) = ?rs3"
    unfolding sp healthLoop_append using ma by simp
  have i1: "routerInv (fst ?rs1)" using i0 healthLoop_inv[of "(?r0, [])" ?m pre] by simp
  have g1: "registered (fst ?rs1) a = {}"
    using healthLoop_other[of "(?r0, [])" a pre ?m] i0 np(1) g0 by simp
  note st = healthStep_self[OF g1, of h]
  have i2: "routerInv (fst ?rs2)" using i1 by (rule healthStep_inv)
  note ot = healthLoop_other[OF i2 np(2), of ?m]
  have "reachable ?r'" using assms(1) by (rule reachable.reach_updateBackendHealth)
  then have b': "base ?r'" using reachable_inv routerInv_base by blast
  have rg: "registered ?r' a = registered (fst ?rs3) a"
    unfolding registered_def updateBackendHealth_lists[OF assms(2)] lp by simp
  have hp: "bheap ?r' = bheap (fst ?rs3)"
    unfolding updateBackendHealth_lists[OF assms(2)] lp by simp
  show ?thesis
  proof (cases "Status h \<noteq> StatusCannotConnect")
    case True
    let ?g = "bnext (fst ?rs1)"
    have "registered (fst ?rs2) a = {?g}"
      and h2: "bheap (fst ?rs2) ?g = \<lparr>addr = a, health = h, connScore = 0, connList = []\<rparr>"
      using st True by simp_all
    then have "registered ?r' a = {?g}" and "bheap ?r' ?g = bheap (fst ?rs2) ?g"
      using ot rg hp by simp_all
    then have "lookupBackend ?r' a True = Some ?g"
      and "bheap ?r' ?g = \<lparr>addr = a, health = h, connScore = 0, connList = []\<rparr>"
      using registered_Some[OF b', of a True ?g] h2 by simp_all
    then show ?thesis using True by simp
  next
    case False
    then have "fst ?rs2 = fst ?rs1" using st by simp
    then have "registered ?r' a = {}" using ot rg g1 by simp
    then have "lookupBackend ?r' a True = None" by (simp add: registered_None)
    then show ?thesis using False by simp
  qed
qed

theorem updateBackendHealth_unknown_address_witness:
  "reachable twoBackends
   \<and> map_of [(''a'', healthy), (''b'', healthy), (''c'', outdated), (''d'', unreachable)] ''c'' = Some outdated
   \<and> lookupBackend twoBackends ''c'' True = None
   \<and> visits [''c'', ''d'', ''a'', ''b'']
        (addRemoved (bheap twoBackends) (backends twoBackends)
           [(''a'', healthy), (''b'', healthy), (''c'', outdated), (''d'', unreachable)])
   \<and> Status outdated = StatusSchemaOutdated
   \<and> (\<exists>be. lookupBackend (updateBackendHealth twoBackends
            \<lparr>Backends = [(''a'', healthy), (''b'', healthy), (''c'', outdated), (''d'', unreachable)],
               Error = None\<rparr> [''c'', ''d'', ''a'', ''b'']) ''c'' True = Some be)
   \<and> lookupBackend (updateBackendHealth twoBackends
            \<lparr>Backends = [(''a'', healthy), (''b'', healthy), (''c'', outdated), (''d'', unreachable)],
               Error = None\<rparr> [''c'', ''d'', ''a'', ''b'']) ''d'' True = None"
proof -
  let ?hr = "\<lparr>Backends = [(''a'', healthy), (''b'', healthy), (''c'', outdated), (''d'', unreachable)],
               Error = None\<rparr>"
  let ?order = "[''c'', ''d'', ''a'', ''b'']"
  have r: "reachable twoBackends"
    unfolding twoBackends_def by (intro reachable.reach_updateBackendHealth reachable.reach_new)
  have h2: "Error ?hr = None" by simp
  have h3: "map_of (Backends ?hr) ''c'' = Some outdated" by simp
  have h3': "map_of (Backends ?hr) ''d'' = Some unreachable" by simp
  have h4: "lookupBackend twoBackends ''c'' True = None" by code_simp
  have h4': "lookupBackend twoBackends ''d'' True = None" by code_simp
  have h5: "visits ?order (addRemoved (bheap twoBackends) (backends twoBackends) (Backends ?hr))"
    by code_simp
  have s: "Status outdated = StatusSchemaOutdated" by (simp add: outdated_def)
  have s': "Status unreachable = StatusCannotConnect" by (simp add: unreachable_def)
  note t = updateBackendHealth_unknown_address[OF r h2 h3 h4 h5]
  note t' = updateBackendHealth_unknown_address[OF r h2 h3' h4' h5]
  have c: "\<exists>be. lookupBackend (updateBackendHealth twoBackends ?hr ?order) ''c'' True = Some be"
    using t s by auto
  have d: "lookupBackend (updateBackendHealth twoBackends ?hr ?order) ''d'' True = None"
    using t' s' by auto
  show ?thesis using r h3 h4 h5 s c d by simp
qed

theorem updateBackendHealth_outdated_counterexample:
  "lookupBackend (NewScoreBasedRouter specScore) ''c'' True = None
   \<and> Status outdated = StatusSchemaOutdated
   \<and> lookupBackend (updateBackendHealth (NewScoreBasedRouter specScore)
         \<lparr>Backends = [(''c'', outdated)], Error = None\<rparr> [''c'']) ''c'' True = Some 0
   \<and> health (bheap (updateBackendHealth (NewScoreBasedRouter specScore)
         \<lparr>Backends = [(''c'', outdated)], Error = None\<rparr> [''c'']) 0) = outdated"
  by code_simp

text \<open>
  C7, as the code has it: with no latched observe error, a call that finds no qualifying
  backend returns ErrNoBackend and, when an observer is set, asks it to refresh, whatever
  the reason (an empty list and an exclusion list included); no other call asks for a
  refresh or returns ErrNoBackend.
\<close>

theorem routeOnce_no_backend_refresh:
  "(observeError r = None \<and> spec_firstQualifying r excluded = None \<longrightarrow>
      routeOnce r excluded = ((if hasObserver r then Refresh r else r), Inl ErrNoBackend))
   \<and> refreshes (fst (routeOnce r excluded)) =
       (if observeError r = None \<and> spec_firstQualifying r excluded = None \<and> hasObserver r
        then Suc (refreshes r) else refreshes r)
   \<and> (snd (routeOnce r excluded) = Inl ErrNoBackend \<longleftrightarrow>
        observeError r = None \<and> spec_firstQualifying r excluded = None)"
proof (cases "observeError r")
  case (Some e)
  then show ?thesis by (simp add: routeOnce_error)
next
  case None
  show ?thesis
  proof (cases "spec_firstQualifying r excluded")
    case N: None
    show ?thesis using None N by (simp add: routeOnce_None Refresh_def)
  next
    case (Some be)
    show ?thesis using None Some by (simp add: routeOnce_Some)
  qed
qed

theorem routeOnce_no_backend_refresh_witness:
  "observeError observedTwo = None \<and> spec_firstQualifying observedTwo [''a'', ''b''] = None
   \<and> hasObserver observedTwo
   \<and> routeOnce observedTwo [''a'', ''b''] = (Refresh observedTwo, Inl ErrNoBackend)
   \<and> refreshes (fst (routeOnce observedTwo [''a'', ''b''])) = Suc (refreshes observedTwo)"
proof -
  have h1: "observeError observedTwo = None" by code_simp
  have h2: "spec_firstQualifying observedTwo [''a'', ''b''] = None" by code_simp
  have h3: "hasObserver observedTwo" by code_simp
  show ?thesis using routeOnce_no_backend_refresh[of observedTwo "[''a'', ''b'']"] h1 h2 h3
    by (simp add: Refresh_def)
qed

theorem routeOnce_refresh_counterexample:
  "backends observed = [] \<and> observeError observed = None
   \<and> snd (routeOnce observed []) = Inl ErrNoBackend
   \<and> refreshes (fst (routeOnce observed [])) = Suc (refreshes observed)
   \<and> backends observedTwo = [0, 1]
   \<and> Status (health (bheap observedTwo 0)) = StatusHealthy
   \<and> Status (health (bheap observedTwo 1)) = StatusHealthy
   \<and> snd (routeOnce observedTwo [''a'', ''b'']) = Inl ErrNoBackend
   \<and> refreshes (fst (routeOnce observedTwo [''a'', ''b''])) = Suc (refreshes observedTwo)"
  by code_simp

text \<open>
  C8, as the code has it: for an address that is not registered and a connection that
  holds a list element (stored by an earlier addConn), OnConnClosed inserts a wrapper for
  the address with status CannotConnect, returns nil, and has removed that wrapper again
  when it returns.
\<close>

theorem OnConnClosed_unknown_address:
  assumes "reachable r" and "lookupBackend r a True = None" and "getConnWrapper r c = Some ce"
  shows "lookupBackend (fst (ensureBackend r a True)) a True = Some (bnext r)
     \<and> bheap (fst (ensureBackend r a True)) (bnext r)
          = \<lparr>addr = a, health = cannotConnect, connScore = 0, connList = []\<rparr>
     \<and> (\<exists>r'. OnConnClosed r a c = Some r' \<and> lookupBackend r' a True = None
            \<and> bnext r \<notin> set (backends r') \<and> set (backends r') \<subseteq> set (backends r))"
proof -
  let ?g = "bnext r"
  let ?r1 = "fst (ensureBackend r a True)"
  have i: "invX {} r" using assms(1) reachable_inv by (simp add: routerInv_def)
  have e: "ensureBackend r a True = (?r1, ?g)"
    using ensureBackend_new(1)[OF assms(2)] by (metis prod.collapse)
  note n = ensureBackend_new[OF assms(2)]
  note i1 = ensureBackend_inv[OF i e]
  have b1: "base ?r1" using i1(1) by (simp add: invX_def)
  have fresh: "?g \<notin> set (backends r)" using i by (auto simp: invX_def base_def)
  have "lookupBackend ?r1 (addr (bheap ?r1 ?g)) True = Some ?g"
    using b1 i1(2) by (rule lookupBackend_distinct)
  then have l1: "lookupBackend ?r1 a True = Some ?g" using i1(3) by simp
  have g1: "bheap ?r1 ?g = \<lparr>addr = a, health = cannotConnect, connScore = 0, connList = []\<rparr>"
    by (simp add: n(2))
  have k: "getConnWrapper ?r1 c = Some ce"
    using assms(3) ensureBackend_other(5)[OF e] by (simp add: getConnWrapper_def)
  let ?w = "eheap ?r1 ce"
  let ?rel = "releaseScore ?r1 ?g ?w"
  let ?ru = "updBackend ?g (\<lambda>b. b\<lparr>connList := remove1 ce (connList b)\<rparr>) ?rel"
  let ?r' = "removeConn ?rel ?g ce"
  have o: "OnConnClosed r a c = Some ?r'"
    using k n(1) by (simp add: OnConnClosed_alt)
  have "connScore (bheap ?rel ?g) \<le> 0"
    by (auto simp: releaseScore_bheap g1 split: option.splits)
  then have eu: "emptyUnhealthy (bheap ?ru ?g)"
    by (simp add: emptyUnhealthy_def releaseScore_fields g1 cannotConnect_def)
  have bk: "backends ?r' = remove1 ?g (backends ?rel)"
    unfolding removeConn_def using eu by (simp add: backends_adjust)
  have "distinct (backends ?rel)" using base_releaseScore[OF b1] by (simp add: base_def)
  then have gone: "?g \<notin> set (backends ?r')" unfolding bk by simp
  have "set (backends ?r') \<subseteq> set (backends ?rel) - {?g}"
    unfolding bk using \<open>distinct (backends ?rel)\<close> by auto
  then have sub: "set (backends ?r') \<subseteq> set (backends r)"
    using releaseScore_lists(1)[of ?r1 ?g ?w] n(3) by auto
  have ad: "\<And>x. x \<in> set (backends r) \<Longrightarrow> addr (bheap ?r' x) = addr (bheap r x)"
  proof -
    fix x assume "x \<in> set (backends r)"
    then have "x \<noteq> ?g" using fresh by auto
    then show "addr (bheap ?r' x) = addr (bheap r x)"
      by (simp add: removeConn_bheap releaseScore_fields n(2))
  qed
  have "a \<notin> (\<lambda>b. addr (bheap r b)) ` set (backends r)"
    using assms(2) by (simp add: lookupBackend_None)
  then have "a \<notin> (\<lambda>b. addr (bheap ?r' b)) ` set (backends ?r')"
    using sub ad by force
  then have l': "lookupBackend ?r' a True = None" by (simp add: lookupBackend_None)
  show ?thesis using l1 g1 o l' gone sub by blast
qed

theorem OnConnClosed_unknown_address_witness:
  "reachable oneConn \<and> lookupBackend oneConn ''ghost'' True = None
   \<and> getConnWrapper oneConn 7 = Some 0 \<and> bnext oneConn = 2 \<and> backends oneConn = [1, 0]
   \<and> lookupBackend (fst (ensureBackend oneConn ''ghost'' True)) ''ghost'' True = Some 2
   \<and> Status (health (bheap (fst (ensureBackend oneConn ''ghost'' True)) 2)) = StatusCannotConnect
   \<and> (\<exists>r'. OnConnClosed oneConn ''ghost'' 7 = Some r' \<and> lookupBackend r' ''ghost'' True = None
         \<and> 2 \<notin> set (backends r'))"
proof -
  have r: "reachable oneConn"
    unfolding oneConn_def twoBackends_def
    by (intro reachable.reach_onCreateConn reachable.reach_routeOnce
          reachable.reach_updateBackendHealth reachable.reach_new)
  have e1: "lookupBackend oneConn ''ghost'' True = None" by code_simp
  have e2: "getConnWrapper oneConn 7 = Some 0" by code_simp
  have e3: "bnext oneConn = 2" by code_simp
  have e4: "backends oneConn = [1, 0]" by code_simp
  note t = OnConnClosed_unknown_address[OF r e1 e2, unfolded e3]
  from t have a: "lookupBackend (fst (ensureBackend oneConn ''ghost'' True)) ''ghost'' True = Some 2"
    by (elim conjE)
  from t have "bheap (fst (ensureBackend oneConn ''ghost'' True)) 2
          = \<lparr>addr = ''ghost'', health = cannotConnect, connScore = 0, connList = []\<rparr>"
    by (elim conjE)
  then have b: "Status (health (bheap (fst (ensureBackend oneConn ''ghost'' True)) 2)) = StatusCannotConnect"
    by (simp add: cannotConnect_def)
  from t have c: "\<exists>r'. OnConnClosed oneConn ''ghost'' 7 = Some r' \<and> lookupBackend r' ''ghost'' True = None
         \<and> 2 \<notin> set (backends r')"
    by blast
  show ?thesis using r e1 e2 e3 e4 a b c by (intro conjI)
qed

theorem OnConnClosed_unknown_connection_counterexample:
  "lookupBackend (NewScoreBasedRouter specScore) ''ghost'' True = None
   \<and> getConnWrapper (NewScoreBasedRouter specScore) 7 = None
   \<and> OnConnClosed (NewScoreBasedRouter specScore) ''ghost'' 7 = None"
  by code_simp

text \<open>
  C9: when Next has chosen a backend, Finish(conn, false) takes one from that backend's
  connScore and re-sorts; after the pair every backend has the score it had before, and
  the list holds the same backends.
\<close>

theorem next_finish_false_roundtrip:
  assumes "reachable r" and "routeOnce r excluded = (r1, Inr be)"
  shows "connScore (bheap (onCreateConn r1 (addr (bheap r1 be)) c False) be) = connScore (bheap r1 be) - 1
     \<and> connScore (bheap r1 be) = connScore (bheap r be) + 1
     \<and> (\<forall>x. score (onCreateConn r1 (addr (bheap r1 be)) c False) x = score r x)
     \<and> bheap (onCreateConn r1 (addr (bheap r1 be)) c False) = bheap r
     \<and> set (backends (onCreateConn r1 (addr (bheap r1 be)) c False)) = set (backends r)
     \<and> sorted_wrt (\<lambda>x y. score (onCreateConn r1 (addr (bheap r1 be)) c False) y
                          \<le> score (onCreateConn r1 (addr (bheap r1 be)) c False) x)
          (backends (onCreateConn r1 (addr (bheap r1 be)) c False))"
proof -
  let ?inc = "\<lambda>b. b\<lparr>connScore := connScore b + 1\<rparr>"
  let ?dec = "\<lambda>b. b\<lparr>connScore := connScore b - 1\<rparr>"
  let ?r2 = "onCreateConn r1 (addr (bheap r1 be)) c False"
  note f = routeOnce_Inr[OF assms(2)]
  have q: "be \<in> set (backends r)" "Status (health (bheap r be)) = StatusHealthy"
    using spec_firstQualifying_Some[OF f(2)] by (auto simp: qualifies_def)
  have "reachable (fst (routeOnce r excluded))" using assms(1) by (rule reachable.reach_routeOnce)
  then have re1: "reachable r1" using assms(2) by simp
  then have i1: "routerInv r1" by (rule reachable_inv)
  have in1: "be \<in> set (backends r1)" unfolding f(3) using q(1) by simp
  have "lookupBackend r1 (addr (bheap r1 be)) True = Some be"
    using i1 in1 by (intro lookupBackend_distinct) (simp_all add: routerInv_def invX_def)
  then have e: "ensureBackend r1 (addr (bheap r1 be)) True = (r1, be)" by (rule ensureBackend_found)
  have r2: "?r2 = adjustBackendList (updBackend be ?dec r1) be True"
    using e by (simp add: onCreateConn_def)
  have h1: "bheap r1 = (bheap r)(be := ?inc (bheap r be))" unfolding f(3) by simp
  have h2: "bheap ?r2 = bheap r" unfolding r2 by (simp add: h1)
  have ne: "\<not> emptyUnhealthy (bheap (updBackend be ?dec r1) be)"
    using q(2) by (simp add: h1 emptyUnhealthy_def)
  have "set (backends ?r2) = set (backends r1)"
    unfolding r2 using ne by (simp add: backends_adjust set_adjustList)
  then have s: "set (backends ?r2) = set (backends r)" unfolding f(3) by simp
  have "reachable ?r2" using re1 by (rule reachable.reach_onCreateConn)
  then have "routerInv ?r2" by (rule reachable_inv)
  then have d: "sorted_wrt (\<lambda>x y. score ?r2 y \<le> score ?r2 x) (backends ?r2)"
    by (simp add: routerInv_def invX_def descending_def)
  have sm1: "scoreMethod ?r2 = scoreMethod r1" by (simp add: r2)
  have sm2: "scoreMethod r1 = scoreMethod r" by (simp add: f(3))
  have "connScore (bheap ?r2 be) = connScore (bheap r1 be) - 1" unfolding r2 by simp
  moreover have "connScore (bheap r1 be) = connScore (bheap r be) + 1" by (simp add: h1)
  moreover have "\<forall>x. score ?r2 x = score r x" by (simp add: score_def h2 sm1 sm2)
  ultimately show ?thesis using h2 s d by (intro conjI)
qed

theorem next_finish_false_roundtrip_witness:
  "reachable twoBackends
   \<and> routeOnce twoBackends [] = (fst (routeOnce twoBackends []), Inr 1)
   \<and> addr (bheap (fst (routeOnce twoBackends [])) 1) = ''b''
   \<and> connScore (bheap (fst (routeOnce twoBackends [])) 1) = 1
   \<and> connScore (bheap (onCreateConn (fst (routeOnce twoBackends [])) ''b'' 7 False) 1) = 0
   \<and> bheap (onCreateConn (fst (routeOnce twoBackends [])) ''b'' 7 False) = bheap twoBackends
   \<and> set (backends (onCreateConn (fst (routeOnce twoBackends [])) ''b'' 7 False)) = set (backends twoBackends)"
proof -
  let ?r1 = "fst (routeOnce twoBackends [])"
  have r: "reachable twoBackends"
    unfolding twoBackends_def by (intro reachable.reach_updateBackendHealth reachable.reach_new)
  have "snd (routeOnce twoBackends []) = Inr 1" by code_simp
  then have h: "routeOnce twoBackends [] = (?r1, Inr 1)" by (metis prod.collapse)
  have a: "addr (bheap ?r1 1) = ''b''" by code_simp
  have c1: "connScore (bheap ?r1 1) = 1" by code_simp
  note t = next_finish_false_roundtrip[OF r h, of 7, unfolded a]
  from t have "connScore (bheap (onCreateConn ?r1 ''b'' 7 False) 1) = connScore (bheap ?r1 1) - 1"
    by (elim conjE)
  then have c0: "connScore (bheap (onCreateConn ?r1 ''b'' 7 False) 1) = 0" using c1 by simp
  from t have b: "bheap (onCreateConn ?r1 ''b'' 7 False) = bheap twoBackends" by (elim conjE)
  from t have s: "set (backends (onCreateConn ?r1 ''b'' 7 False)) = set (backends twoBackends)"
    by (elim conjE)
  show ?thesis using r h a c1 c0 b s by (intro conjI)
qed

text \<open>
  C10: ConnCount returns the sum of the lengths of the connLists of the backends in the
  list and leaves the router as it is; a successful routeOnce adds one to a connScore and
  leaves the count as it is.
\<close>

theorem ConnCount_sum:
  "snd (ConnCount r) = sum_list (map (\<lambda>be. int (length (connList (bheap r be)))) (backends r))
   \<and> fst (ConnCount r) = r
   \<and> (routeOnce r excluded = (r', Inr be) \<longrightarrow>
        snd (ConnCount r') = snd (ConnCount r)
        \<and> connScore (bheap r' be) = connScore (bheap r be) + 1)"
proof (intro conjI impI)
  show "snd (ConnCount r) = sum_list (map (\<lambda>be. int (length (connList (bheap r be)))) (backends r))"
    by (simp add: ConnCount_def ConnCountLoop_sum)
  show "fst (ConnCount r) = r" by (simp add: ConnCount_def)
next
  assume a: "routeOnce r excluded = (r', Inr be)"
  have oe: "observeError r = None" using a by (cases "observeError r") (auto simp: routeOnce_def)
  have "spec_firstQualifying r excluded = Some be"
    using a oe by (cases "spec_firstQualifying r excluded") (auto simp: routeOnce_None routeOnce_Some)
  then have r': "r' = adjustBackendList (updBackend be (\<lambda>b. b\<lparr>connScore := connScore b + 1\<rparr>) r) be False"
    using a oe by (simp add: routeOnce_Some)
  have m: "mset (backends r') = mset (backends r)"
    unfolding r' by (simp add: backends_adjust mset_adjustList)
  have l: "(\<lambda>x. int (length (connList (bheap r' x)))) = (\<lambda>x. int (length (connList (bheap r x))))"
    unfolding r' by (rule ext) simp
  show "snd (ConnCount r') = snd (ConnCount r)"
    unfolding ConnCount_def snd_conv ConnCountLoop_sum l using sum_list_mset_cong[OF m] by simp
  show "connScore (bheap r' be) = connScore (bheap r be) + 1" unfolding r' by simp
qed

theorem ConnCount_sum_witness:
  "routeOnce oneConn [] = (fst (routeOnce oneConn []), Inr 0)
   \<and> snd (ConnCount oneConn) = 1
   \<and> snd (ConnCount (fst (routeOnce oneConn []))) = snd (ConnCount oneConn)
   \<and> connScore (bheap (fst (routeOnce oneConn [])) 0) = connScore (bheap oneConn 0) + 1"
proof -
  have e: "snd (routeOnce oneConn []) = Inr 0" by code_simp
  then have h: "routeOnce oneConn [] = (fst (routeOnce oneConn []), Inr 0)"
    by (metis prod.collapse)
  have c: "snd (ConnCount oneConn) = 1" by code_simp
  show ?thesis using ConnCount_sum[of oneConn "[]" "fst (routeOnce oneConn [])" 0] h c by blast
qed

end
